theory Spec2Isabelle
  imports Complex_Main
begin

section \<open>Data model of \<open>diskflowsim/simulation.py\<close>\<close>

text \<open>
  The class \<open>DiskPropagation\<close> keeps a three-dimensional numpy array \<open>state\<close> indexed by
  (time, annulus, segment). Array entries are float64 in the source; they are modelled as
  \<^typ>\<open>real\<close>, so rounding, infinities and NaN are outside the model. A two-dimensional
  array is a list of rows, a three-dimensional one a list of snapshots.
\<close>

type_synonym snapshot = "real list list"
type_synonym history = "snapshot list"

text \<open>The exceptions the code can raise, as values.\<close>

datatype error = ValueError | IndexError | StopIteration | AttributeError | TypeError

text \<open>
  The object stored in \<open>self.initial_annulus_generator\<close> is a Python iterator. It is the
  sequence of values it will yield together with the number of values already pulled;
  \<open>items g i = None\<close> says that the iterator is exhausted at pull \<open>i\<close>. Following the
  docstring of \<open>initialize\<close> (\<open>initial_state_func(5) -> [1, 4, 3, 4, 2]\<close>) a yielded value
  is a one-dimensional vector, of any length.
\<close>

record generator =
  items :: "nat \<Rightarrow> real list option"
  consumed :: nat

text \<open>Python's \<open>next(g)\<close>: the value and the advanced iterator, or \<open>StopIteration\<close>.\<close>

definition next_gen :: "generator \<Rightarrow> error + (real list \<times> generator)" where
  "next_gen g =
     (case items g (consumed g) of
        None \<Rightarrow> Inl StopIteration
      | Some v \<Rightarrow> Inr (v, g\<lparr>consumed := Suc (consumed g)\<rparr>))"

text \<open>
  The instance. \<open>self.state\<close> is a reference to an array that the run loop writes in place,
  and \<open>self.initial_state = self.state[-1]\<close> is a numpy view into such an array, not a
  copy. Both are therefore addresses into an explicit store \<open>heap\<close> of the
  three-dimensional arrays allocated so far: \<open>state\<close> is the address of the current
  history array, \<open>initial_state\<close> is an address with a time index. The attribute
  \<open>state_\<close> (here \<open>state_observed\<close>) is the product computed by \<open>_extract_state\<close>, a
  fresh array nothing else refers to, and is held by value. \<open>time\<close> is only ever set to
  0 and incremented, so it is a natural number.
  \<open>initial_annulus_generator\<close> is not assigned by \<open>__init__\<close>: \<open>None\<close> stands for the
  missing attribute.
\<close>

record disk =
  r_in :: int
  r_out :: int
  num_anulus :: int
  num_segments :: int
  total_convolve_rate :: real
  time :: nat
  initial_state :: "(nat \<times> nat) option"
  state :: "nat option"
  state_observed :: "history option"
  initial_annulus_generator :: "generator option"
  heap :: "history list"

text \<open>\<open>__init__\<close> (lines 42-53). Nothing is validated.\<close>

definition DiskPropagation :: "int \<Rightarrow> int \<Rightarrow> real \<Rightarrow> disk" where
  "DiskPropagation ri ro rate =
     \<lparr>r_in = ri, r_out = ro, num_anulus = ro - ri + 1, num_segments = ro,
      total_convolve_rate = rate, time = 0, initial_state = None, state = None,
      state_observed = None, initial_annulus_generator = None, heap = []\<rparr>"

text \<open>The array \<open>self.state\<close> refers to, and the snapshot \<open>self.initial_state\<close> views.\<close>

definition the_history :: "disk \<Rightarrow> history option" where
  "the_history d = map_option (\<lambda>p. heap d ! p) (state d)"

definition the_initial_state :: "disk \<Rightarrow> snapshot option" where
  "the_initial_state d = map_option (\<lambda>(q, t). heap d ! q ! t) (initial_state d)"

section \<open>The numpy and scipy operations the code calls\<close>

text \<open>\<open>np.zeros((n, a, s))\<close>: a negative dimension raises \<open>ValueError\<close>.\<close>

definition np_zeros :: "int \<Rightarrow> int \<Rightarrow> int \<Rightarrow> error + history" where
  "np_zeros n a s =
     (if n < 0 \<or> a < 0 \<or> s < 0 then Inl ValueError
      else Inr (replicate (nat n) (replicate (nat a) (replicate (nat s) 0))))"

text \<open>
  Broadcasting along one axis in an assignment: the value has the length of the target, or
  length 1 and is repeated; anything else raises \<open>ValueError\<close>.
\<close>

definition broadcast_list :: "nat \<Rightarrow> 'a list \<Rightarrow> error + 'a list" where
  "broadcast_list n xs =
     (if length xs = n then Inr xs
      else if length xs = 1 then Inr (replicate n (hd xs))
      else Inl ValueError)"

text \<open>The right-hand side of an assignment into a snapshot slot: a vector or a matrix.\<close>

datatype ndarray = Array1 "real list" | Array2 "real list list"

fun broadcast_to :: "nat \<Rightarrow> nat \<Rightarrow> ndarray \<Rightarrow> error + snapshot" where
  "broadcast_to A S (Array1 v) =
     (case broadcast_list S v of
        Inl e \<Rightarrow> Inl e
      | Inr r \<Rightarrow> Inr (replicate A r))"
| "broadcast_to A S (Array2 m) =
     (case broadcast_list A m of
        Inl e \<Rightarrow> Inl e
      | Inr rows \<Rightarrow>
          if list_all (\<lambda>r. length r = S) rows then Inr rows
          else if list_all (\<lambda>r. length r = 1) rows then Inr (map (\<lambda>r. replicate S (hd r)) rows)
          else Inl ValueError)"

text \<open>
  \<open>scipy.signal.convolve2d(x, [[w0, w1]], "same")\<close> with a kernel of one row and two
  columns: the full convolution along the segment axis, \<open>w0 * x[a][s] + w1 * x[a][s-1]\<close>
  with zero fill to the left of column 0, cut to the columns of the input. The kernel is
  passed as the pair of its two entries.
\<close>

fun conv_row :: "real \<Rightarrow> real \<Rightarrow> real \<Rightarrow> real list \<Rightarrow> real list" where
  "conv_row w0 w1 prev [] = []"
| "conv_row w0 w1 prev (x # xs) = (w0 * x + w1 * prev) # conv_row w0 w1 x xs"

definition convolve2d_same :: "snapshot \<Rightarrow> real \<times> real \<Rightarrow> snapshot" where
  "convolve2d_same x w = map (conv_row (fst w) (snd w) 0) x"

text \<open>\<open>np.roll(x, shift, axis=0)\<close>: row \<open>a\<close> moves to row \<open>(a + shift) mod n\<close>.\<close>

definition np_roll :: "nat \<Rightarrow> 'a list \<Rightarrow> 'a list" where
  "np_roll shift xs = rotate (length xs - shift mod length xs) xs"

text \<open>\<open>np.triu(np.ones((a, s)))\<close>: 1 on and above the diagonal, 0 below.\<close>

definition np_triu_ones :: "nat \<Rightarrow> nat \<Rightarrow> snapshot" where
  "np_triu_ones a s = map (\<lambda>i. map (\<lambda>j. if i \<le> j then 1 else 0) [0..<s]) [0..<a]"

text \<open>
  The product \<open>h * m\<close> of a three-dimensional array with a two-dimensional one of the
  shape of its snapshots: numpy repeats \<open>m\<close> along the time axis and multiplies
  elementwise. Every snapshot of the array \<open>run_simulation\<close> fills has the shape
  \<open>(num_anulus, num_segments)\<close> of the mask (\<open>run_simulation_Inr\<close> below).
\<close>

definition np_multiply :: "history \<Rightarrow> snapshot \<Rightarrow> history" where
  "np_multiply h m = map (\<lambda>snap. map2 (\<lambda>row mrow. map2 (\<lambda>x y. x * y) row mrow) snap m) h"

section \<open>The methods\<close>

text \<open>
  \<open>_update\<close> (lines 124-131). The result is a new array; the argument is only read. The
  right-hand side \<open>next(...)\<close> is evaluated before the index 0 is resolved, and the pulled
  vector is broadcast into the row.
\<close>

definition update :: "disk \<Rightarrow> snapshot \<Rightarrow> error + (snapshot \<times> disk)" where
  "update d current_state =
     (let weights = (1 * total_convolve_rate d / 2, 1 * total_convolve_rate d / 2);
          smoothed = convolve2d_same current_state weights;
          rolled = np_roll 1 smoothed
      in case initial_annulus_generator d of
           None \<Rightarrow> Inl AttributeError
         | Some g \<Rightarrow>
             (case next_gen g of
                Inl e \<Rightarrow> Inl e
              | Inr (v, g') \<Rightarrow>
                  (case rolled of
                     [] \<Rightarrow> Inl IndexError
                   | r # rs \<Rightarrow>
                       (case broadcast_list (length r) v of
                          Inl e \<Rightarrow> Inl e
                        | Inr r' \<Rightarrow>
                            Inr (r' # rs, d\<lparr>initial_annulus_generator := Some g'\<rparr>)))))"

text \<open>
  \<open>self.state[t] = value\<close>: the index is resolved first (\<open>IndexError\<close>), then the value is
  broadcast to the slot, whose shape is \<open>(num_anulus, num_segments)\<close>, and copied into the
  array \<open>self.state\<close> refers to.
\<close>

definition setitem_state :: "disk \<Rightarrow> nat \<Rightarrow> ndarray \<Rightarrow> error + disk" where
  "setitem_state d t v =
     (case state d of
        None \<Rightarrow> Inl TypeError
      | Some p \<Rightarrow>
          if t < length (heap d ! p) then
            (case broadcast_to (nat (num_anulus d)) (nat (num_segments d)) v of
               Inl e \<Rightarrow> Inl e
             | Inr s \<Rightarrow> Inr (d\<lparr>heap := (heap d)[p := (heap d ! p)[t := s]]\<rparr>))
          else Inl IndexError)"

text \<open>\<open>self.state[t]\<close> as an expression.\<close>

definition getitem_state :: "disk \<Rightarrow> nat \<Rightarrow> error + snapshot" where
  "getitem_state d t =
     (case state d of
        None \<Rightarrow> Inl TypeError
      | Some p \<Rightarrow> if t < length (heap d ! p) then Inr (heap d ! p ! t) else Inl IndexError)"

text \<open>The inner loop \<open>for _ in range(flow_velocity-1)\<close> (lines 111-112), on its trip count.\<close>

fun inner_loop :: "nat \<Rightarrow> disk \<Rightarrow> snapshot \<Rightarrow> error + (snapshot \<times> disk)" where
  "inner_loop 0 d next_state = Inr (next_state, d)"
| "inner_loop (Suc k) d next_state =
     (case update d next_state of
        Inl e \<Rightarrow> Inl e
      | Inr (next_state', d') \<Rightarrow> inner_loop k d' next_state')"

text \<open>The body of the outer loop (lines 110-114).\<close>

definition loop_body :: "int \<Rightarrow> disk \<Rightarrow> error + disk" where
  "loop_body flow_velocity d =
     (case getitem_state d (time d) of
        Inl e \<Rightarrow> Inl e
      | Inr current_state \<Rightarrow>
          (case update d current_state of
             Inl e \<Rightarrow> Inl e
           | Inr (next_state, d1) \<Rightarrow>
               (case inner_loop (nat (flow_velocity - 1)) d1 next_state of
                  Inl e \<Rightarrow> Inl e
                | Inr (next_state', d2) \<Rightarrow>
                    (let d3 = d2\<lparr>time := time d2 + 1\<rparr>
                     in setitem_state d3 (time d3) (Array2 next_state')))))"

text \<open>The outer loop \<open>for _ in range(num_steps)\<close> (line 109), on its trip count.\<close>

fun outer_loop :: "nat \<Rightarrow> int \<Rightarrow> disk \<Rightarrow> error + disk" where
  "outer_loop 0 flow_velocity d = Inr d"
| "outer_loop (Suc k) flow_velocity d =
     (case loop_body flow_velocity d of
        Inl e \<Rightarrow> Inl e
      | Inr d' \<Rightarrow> outer_loop k flow_velocity d')"

text \<open>
  \<open>_extract_state\<close> (lines 117-122). \<open>None * array\<close> raises \<open>TypeError\<close>.
\<close>

definition extract_state :: "disk \<Rightarrow> error + history" where
  "extract_state d =
     (let trim_matrix = np_triu_ones (nat (num_anulus d)) (nat (num_segments d))
      in case state d of
           None \<Rightarrow> Inl TypeError
         | Some p \<Rightarrow> Inr (np_multiply (heap d ! p) trim_matrix))"

text \<open>
  The seeding of slot 0 (lines 104-107), after the allocation. With an initial state the
  viewed snapshot is copied; without one a single vector is pulled and numpy broadcasts it
  over the annuli.
\<close>

definition seed_state :: "disk \<Rightarrow> error + disk" where
  "seed_state d =
     (case initial_state d of
        Some (q, t) \<Rightarrow> setitem_state d 0 (Array2 (heap d ! q ! t))
      | None \<Rightarrow>
          (case initial_annulus_generator d of
             None \<Rightarrow> Inl AttributeError
           | Some g \<Rightarrow>
               (case next_gen g of
                  Inl e \<Rightarrow> Inl e
                | Inr (v, g') \<Rightarrow>
                    setitem_state (d\<lparr>initial_annulus_generator := Some g'\<rparr>) 0 (Array1 v))))"

text \<open>
  \<open>run_simulation\<close> (lines 85-115). \<open>np.zeros\<close> allocates a new array, at the next free
  address of the store, and \<open>self.state\<close> is rebound to it. \<open>self.time\<close> is not assigned
  before the loop.
\<close>

definition run_simulation :: "disk \<Rightarrow> int \<Rightarrow> int \<Rightarrow> error + disk" where
  "run_simulation d num_steps flow_velocity =
     (case np_zeros (num_steps + 1) (num_anulus d) (num_segments d) of
        Inl e \<Rightarrow> Inl e
      | Inr z \<Rightarrow>
          (let d1 = d\<lparr>state := Some (length (heap d)), heap := heap d @ [z]\<rparr>
           in case seed_state d1 of
                Inl e \<Rightarrow> Inl e
              | Inr d2 \<Rightarrow>
                  (case outer_loop (nat num_steps) flow_velocity d2 of
                     Inl e \<Rightarrow> Inl e
                   | Inr d3 \<Rightarrow>
                       (case extract_state d3 of
                          Inl e \<Rightarrow> Inl e
                        | Inr m \<Rightarrow> Inr (d3\<lparr>state_observed := Some m\<rparr>)))))"

text \<open>
  \<open>initialize\<close> (lines 55-71). The factory is called with \<open>num_segments\<close>;
  \<open>run_simulation\<close> runs with the default \<open>flow_velocity = 1\<close>; \<open>self.state[-1]\<close> is a view
  of the last slice of the array just filled.
\<close>

definition initialize :: "disk \<Rightarrow> (int \<Rightarrow> generator) \<Rightarrow> error + disk" where
  "initialize d initial_annulus_generator_func =
     (let d1 = d\<lparr>initial_annulus_generator :=
                   Some (initial_annulus_generator_func (num_segments d))\<rparr>
      in case run_simulation d1 (num_anulus d1) 1 of
           Inl e \<Rightarrow> Inl e
         | Inr d2 \<Rightarrow>
             (case state d2 of
                None \<Rightarrow> Inl TypeError
              | Some p \<Rightarrow>
                  if heap d2 ! p = [] then Inl IndexError
                  else Inr (d2\<lparr>initial_state := Some (p, length (heap d2 ! p) - 1),
                               time := 0\<rparr>)))"

text \<open>\<open>reset\<close> (lines 78-83).\<close>

definition reset :: "disk \<Rightarrow> disk" where
  "reset d = d\<lparr>time := 0, state := None, state_observed := None\<rparr>"

text \<open>\<open>observe\<close> (lines 73-76).\<close>

definition observe :: "disk \<Rightarrow> (history option \<Rightarrow> 'a) \<Rightarrow> 'a" where
  "observe d observation_func = observation_func (state_observed d)"

section \<open>Notions used to state the properties\<close>

text \<open>A snapshot of \<open>A\<close> rows of \<open>S\<close> entries each.\<close>

definition is_shape :: "nat \<Rightarrow> nat \<Rightarrow> snapshot \<Rightarrow> bool" where
  "is_shape A S m \<longleftrightarrow> length m = A \<and> list_all (\<lambda>r. length r = S) m"

text \<open>The instance after \<open>k\<close> further pulls from its iterator, all else unchanged.\<close>

definition advance :: "nat \<Rightarrow> disk \<Rightarrow> disk" where
  "advance k d =
     d\<lparr>initial_annulus_generator :=
         map_option (\<lambda>g. g\<lparr>consumed := consumed g + k\<rparr>) (initial_annulus_generator d)\<rparr>"

text \<open>Two instances with the same rate and the same iterator.\<close>

definition same_source :: "disk \<Rightarrow> disk \<Rightarrow> bool" where
  "same_source d e \<longleftrightarrow>
     total_convolve_rate d = total_convolve_rate e \<and>
     initial_annulus_generator d = initial_annulus_generator e"

text \<open>
  \<open>k\<close> applications of \<open>_update\<close> in a row, each on the output of the one before; the
  result of the last one is the result.
\<close>

fun applications :: "nat \<Rightarrow> disk \<Rightarrow> snapshot \<Rightarrow> error + (snapshot \<times> disk)" where
  "applications 0 d s = Inr (s, d)"
| "applications (Suc k) d s =
     (case applications k d s of
        Inl e \<Rightarrow> Inl e
      | Inr (s', d') \<Rightarrow> update d' s')"

text \<open>The number of pulls the seeding of slot 0 makes.\<close>

definition seed_pulls :: "disk \<Rightarrow> nat" where
  "seed_pulls d = (if initial_state d = None then 1 else 0)"

text \<open>
  The view \<open>initial_state\<close> is set, shows a slice that exists, and that slice has the shape
  \<open>(num_anulus, num_segments)\<close>. A numpy view always shows existing data: \<open>initialize\<close>
  establishes this property, \<open>run_simulation\<close> and \<open>reset\<close> keep it (\<open>initialize_Inr\<close>,
  \<open>run_simulation_initial_state\<close>, \<open>reset_initial_state\<close> below).
\<close>

definition initial_state_ok :: "disk \<Rightarrow> bool" where
  "initial_state_ok d =
     (case initial_state d of
        None \<Rightarrow> False
      | Some (q, t) \<Rightarrow>
          q < length (heap d) \<and> t < length (heap d ! q) \<and>
          is_shape (nat (num_anulus d)) (nat (num_segments d)) (heap d ! q ! t))"

text \<open>
  A client's later use of an instance: a sequence of \<open>run_simulation\<close> and \<open>reset\<close> calls,
  stopped by the first exception.
\<close>

datatype call = Run int int | Reset

fun perform :: "call list \<Rightarrow> disk \<Rightarrow> error + disk" where
  "perform [] d = Inr d"
| "perform (Run num_steps flow_velocity # cs) d =
     (case run_simulation d num_steps flow_velocity of
        Inl e \<Rightarrow> Inl e
      | Inr d' \<Rightarrow> perform cs d')"
| "perform (Reset # cs) d = perform cs (reset d)"

text \<open>
  Instances to run the code on: a Boundary Source that yields the same vector on every
  pull, the factory of such sources that \<open>initialize\<close> takes, and the instance with
  \<open>r_in = 1\<close>, \<open>r_out = 3\<close> whose source attribute has been set without \<open>initialize\<close>.
\<close>

definition constant_source :: "real list \<Rightarrow> generator" where
  "constant_source v = \<lparr>items = (\<lambda>_. Some v), consumed = 0\<rparr>"

definition ones_factory :: "int \<Rightarrow> generator" where
  "ones_factory num = constant_source (replicate (nat num) 1)"

definition example_disk :: "real \<Rightarrow> disk" where
  "example_disk rate =
     (DiskPropagation 1 3 rate)\<lparr>initial_annulus_generator := Some (constant_source [1, 1, 1])\<rparr>"

section \<open>Arrays: convolution, roll, broadcasting\<close>

lemma length_conv_row: "length (conv_row w0 w1 p xs) = length xs"
  by (induction xs arbitrary: p) simp_all

lemma conv_row_nth:
  "s < length xs \<Longrightarrow>
   conv_row w0 w1 p xs ! s = w0 * xs ! s + w1 * (if s = 0 then p else xs ! (s - 1))"
proof (induction xs arbitrary: p s)
  case Nil
  then show ?case by simp
next
  case (Cons x xs)
  show ?case
  proof (cases s)
    case 0
    then show ?thesis by simp
  next
    case (Suc s')
    with Cons.prems have "s' < length xs" by simp
    from Cons.IH [OF this, of x] Suc show ?thesis
      by (cases s') simp_all
  qed
qed

lemma length_convolve2d_same: "length (convolve2d_same x w) = length x"
  by (simp add: convolve2d_same_def)

lemma convolve2d_same_nth:
  "a < length x \<Longrightarrow> convolve2d_same x w ! a = conv_row (fst w) (snd w) 0 (x ! a)"
  by (simp add: convolve2d_same_def)

lemma is_shape_convolve2d_same: "is_shape A S x \<Longrightarrow> is_shape A S (convolve2d_same x w)"
  by (simp add: is_shape_def convolve2d_same_def list_all_iff length_conv_row)

lemma length_np_roll: "length (np_roll k xs) = length xs"
  by (simp add: np_roll_def)

lemma set_np_roll: "set (np_roll k xs) = set xs"
  by (simp add: np_roll_def)

lemma np_roll_nth:
  assumes "a < length xs"
  shows "np_roll 1 xs ! ((a + 1) mod length xs) = xs ! a"
proof -
  let ?n = "length xs"
  have n: "0 < ?n" using assms by (cases xs) simp_all
  have "(a + 1) mod ?n < ?n" using n by simp
  then have "np_roll 1 xs ! ((a + 1) mod ?n) =
        xs ! ((?n - 1 mod ?n + (a + 1) mod ?n) mod ?n)"
    unfolding np_roll_def by (rule nth_rotate)
  also have "(?n - 1 mod ?n + (a + 1) mod ?n) mod ?n = a"
  proof (cases "?n = 1")
    case True
    with assms show ?thesis by simp
  next
    case False
    with n have "1 mod ?n = 1" by simp
    then have "(?n - 1 mod ?n + (a + 1) mod ?n) mod ?n = (?n - 1 + (a + 1)) mod ?n"
      by (simp add: mod_add_right_eq)
    also have "?n - 1 + (a + 1) = a + ?n" using n by simp
    also have "(a + ?n) mod ?n = a" using assms by simp
    finally show ?thesis .
  qed
  finally show ?thesis .
qed

lemma np_roll_Suc_nth:
  assumes "Suc a < length xs"
  shows "np_roll 1 xs ! Suc a = xs ! a"
  using np_roll_nth [of a xs] assms by simp

lemma is_shape_np_roll: "is_shape A S x \<Longrightarrow> is_shape A S (np_roll k x)"
  by (simp add: is_shape_def list_all_iff length_np_roll set_np_roll)

lemma broadcast_list_length: "broadcast_list n xs = Inr ys \<Longrightarrow> length ys = n"
  by (auto simp: broadcast_list_def split: if_splits)

lemma broadcast_list_same: "length xs = n \<Longrightarrow> broadcast_list n xs = Inr xs"
  by (simp add: broadcast_list_def)

lemma broadcast_to_shape: "broadcast_to A S v = Inr m \<Longrightarrow> is_shape A S m"
proof (cases v)
  case (Array1 x)
  assume "broadcast_to A S v = Inr m"
  with Array1 show ?thesis
    by (auto simp: is_shape_def list_all_iff split: sum.splits dest: broadcast_list_length)
next
  case (Array2 x)
  assume "broadcast_to A S v = Inr m"
  with Array2 show ?thesis
    by (auto simp: is_shape_def list_all_iff split: sum.splits if_splits
        dest: broadcast_list_length)
qed

lemma broadcast_to_same: "is_shape A S m \<Longrightarrow> broadcast_to A S (Array2 m) = Inr m"
  by (simp add: is_shape_def broadcast_list_same)


lemma advance_0: "advance 0 d = d"
proof -
  have "map_option (\<lambda>g::generator. g\<lparr>consumed := consumed g + 0\<rparr>) x = x" for x
    by (cases x) simp_all
  then show ?thesis by (simp add: advance_def)
qed

lemma advance_advance: "advance j (advance k d) = advance (k + j) d"
  by (cases "initial_annulus_generator d") (simp_all add: advance_def add.assoc)

lemma advance_fields:
  "r_in (advance k d) = r_in d"
  "r_out (advance k d) = r_out d"
  "num_anulus (advance k d) = num_anulus d"
  "num_segments (advance k d) = num_segments d"
  "total_convolve_rate (advance k d) = total_convolve_rate d"
  "time (advance k d) = time d"
  "initial_state (advance k d) = initial_state d"
  "state (advance k d) = state d"
  "state_observed (advance k d) = state_observed d"
  "heap (advance k d) = heap d"
  "initial_annulus_generator (advance k d) =
     map_option (\<lambda>g. g\<lparr>consumed := consumed g + k\<rparr>) (initial_annulus_generator d)"
  by (simp_all add: advance_def)

lemma same_source_refl: "same_source d d"
  by (simp add: same_source_def)

lemma same_source_advance: "same_source d e \<Longrightarrow> same_source (advance k d) (advance k e)"
  by (simp add: same_source_def advance_fields)

lemma update_Inr:
  assumes "update d cur = Inr (ns, d')"
  shows "\<exists>g v r'. initial_annulus_generator d = Some g \<and> items g (consumed g) = Some v \<and>
           d' = advance 1 d \<and> cur \<noteq> [] \<and>
           broadcast_list (length (np_roll 1 (convolve2d_same cur
             (1 * total_convolve_rate d / 2, 1 * total_convolve_rate d / 2)) ! 0)) v = Inr r' \<and>
           ns = (np_roll 1 (convolve2d_same cur
             (1 * total_convolve_rate d / 2, 1 * total_convolve_rate d / 2)))[0 := r']"
proof -
  let ?rolled = "np_roll 1 (convolve2d_same cur
             (1 * total_convolve_rate d / 2, 1 * total_convolve_rate d / 2))"
  from assms obtain g where g: "initial_annulus_generator d = Some g"
    by (cases "initial_annulus_generator d") (simp_all add: update_def Let_def)
  from assms g obtain v where v: "items g (consumed g) = Some v"
    by (cases "items g (consumed g)") (simp_all add: update_def Let_def next_gen_def)
  from v have ng: "next_gen g = Inr (v, g\<lparr>consumed := Suc (consumed g)\<rparr>)"
    by (simp add: next_gen_def)
  from assms g ng obtain r rs where rolled: "?rolled = r # rs"
    by (cases ?rolled) (simp_all add: update_def Let_def)
  from assms g ng rolled obtain r' where
    r': "broadcast_list (length r) v = Inr r'" and
    res: "ns = r' # rs" "d' = d\<lparr>initial_annulus_generator := Some (g\<lparr>consumed := Suc (consumed g)\<rparr>)\<rparr>"
    by (cases "broadcast_list (length r) v") (simp_all add: update_def Let_def)
  have "cur \<noteq> []"
  proof
    assume "cur = []"
    then have "?rolled = []" by (simp add: np_roll_def convolve2d_same_def)
    with rolled show False by simp
  qed
  moreover have "d' = advance 1 d" using res(2) g by (simp add: advance_def)
  moreover have "ns = ?rolled[0 := r']" using res(1) rolled by simp
  moreover have "broadcast_list (length (?rolled ! 0)) v = Inr r'" using r' rolled by simp
  ultimately show ?thesis using g v by blast
qed

lemma update_same_source:
  assumes "same_source d e" and "update d cur = Inr (ns, d')"
  shows "update e cur = Inr (ns, advance 1 e)"
proof -
  from update_Inr [OF assms(2)] obtain g v where g: "initial_annulus_generator d = Some g"
    and v: "items g (consumed g) = Some v"
    by blast
  with assms(1) have ge: "initial_annulus_generator e = Some g"
    and r: "total_convolve_rate e = total_convolve_rate d"
    by (simp_all add: same_source_def)
  from v have ng: "next_gen g = Inr (v, g\<lparr>consumed := Suc (consumed g)\<rparr>)"
    by (simp add: next_gen_def)
  show ?thesis
    using assms(2) g ge r ng
    by (auto simp: update_def Let_def advance_def split: sum.splits list.splits)
qed

lemma update_shape:
  assumes "is_shape A S cur" and "update d cur = Inr (ns, d')"
  shows "is_shape A S ns"
proof -
  let ?rolled = "np_roll 1 (convolve2d_same cur
             (1 * total_convolve_rate d / 2, 1 * total_convolve_rate d / 2))"
  from update_Inr [OF assms(2)] obtain v r' where
    ne: "cur \<noteq> []" and r': "broadcast_list (length (?rolled ! 0)) v = Inr r'"
    and ns: "ns = ?rolled[0 := r']"
    by blast
  have sh: "is_shape A S ?rolled"
    using assms(1) by (intro is_shape_np_roll is_shape_convolve2d_same)
  have "length ?rolled = length cur"
    by (simp add: length_np_roll length_convolve2d_same)
  with ne have "0 < length ?rolled" by simp
  with sh have "length (?rolled ! 0) = S" by (simp add: is_shape_def list_all_length)
  with r' have "length r' = S" by (auto dest: broadcast_list_length)
  with sh ns show ?thesis
    by (auto simp: is_shape_def list_all_length nth_list_update)
qed


lemma applications_front:
  "applications (Suc k) d s =
     (case update d s of Inl e \<Rightarrow> Inl e | Inr (s', d') \<Rightarrow> applications k d' s')"
proof (induction k arbitrary: d s)
  case 0
  show ?case by (simp split: sum.splits)
next
  case (Suc k)
  have step: "applications (Suc (Suc k)) d s =
        (case applications (Suc k) d s of Inl e \<Rightarrow> Inl e | Inr (s', d') \<Rightarrow> update d' s')"
    by (rule applications.simps(2))
  show ?case
  proof (cases "update d s")
    case (Inl e)
    with Suc.IH [of d s] have "applications (Suc k) d s = Inl e" by simp
    with step Inl show ?thesis by simp
  next
    case (Inr x)
    obtain s1 d1 where x: "x = (s1, d1)" by (cases x)
    with Inr Suc.IH [of d s] have "applications (Suc k) d s = applications k d1 s1" by simp
    with step have "applications (Suc (Suc k)) d s =
        (case applications k d1 s1 of Inl e \<Rightarrow> Inl e | Inr (s', d') \<Rightarrow> update d' s')"
      by simp
    also have "\<dots> = applications (Suc k) d1 s1"
      by (rule applications.simps(2) [symmetric])
    finally show ?thesis using Inr x by simp
  qed
qed

lemma inner_loop_applications: "inner_loop k d s = applications k d s"
proof (induction k arbitrary: d s)
  case 0
  show ?case by simp
next
  case (Suc k)
  show ?case
    unfolding applications_front by (simp add: Suc.IH split: sum.splits)
qed

lemma applications_Inr:
  "applications k d s = Inr (ns, d') \<Longrightarrow> d' = advance k d"
proof (induction k arbitrary: ns d')
  case 0
  then show ?case by (simp add: advance_0)
next
  case (Suc k)
  from Suc.prems obtain s1 d1 where
    a: "applications k d s = Inr (s1, d1)" and u: "update d1 s1 = Inr (ns, d')"
    by (auto split: sum.splits)
  from Suc.IH [OF a] have "d1 = advance k d" .
  moreover from update_Inr [OF u] have "d' = advance 1 d1" by blast
  ultimately show ?case by (simp add: advance_advance)
qed

lemma applications_shape:
  "is_shape A S s \<Longrightarrow> applications k d s = Inr (ns, d') \<Longrightarrow> is_shape A S ns"
proof (induction k arbitrary: ns d')
  case 0
  then show ?case by simp
next
  case (Suc k)
  from Suc.prems(2) obtain s1 d1 where
    a: "applications k d s = Inr (s1, d1)" and u: "update d1 s1 = Inr (ns, d')"
    by (auto split: sum.splits)
  from Suc.IH [OF Suc.prems(1) a] have "is_shape A S s1" .
  then show ?case using u by (rule update_shape)
qed

lemma applications_same_source:
  "same_source d e \<Longrightarrow> applications k d s = Inr (ns, d') \<Longrightarrow>
   applications k e s = Inr (ns, advance k e)"
proof (induction k arbitrary: ns d')
  case 0
  then show ?case by (simp add: advance_0)
next
  case (Suc k)
  from Suc.prems(2) obtain s1 d1 where
    a: "applications k d s = Inr (s1, d1)" and u: "update d1 s1 = Inr (ns, d')"
    by (auto split: sum.splits)
  from Suc.IH [OF Suc.prems(1) a] have e: "applications k e s = Inr (s1, advance k e)" .
  from applications_Inr [OF a] have "d1 = advance k d" .
  with Suc.prems(1) have "same_source d1 (advance k e)"
    by (simp add: same_source_advance)
  from update_same_source [OF this u]
  have "update (advance k e) s1 = Inr (ns, advance (Suc k) e)"
    by (simp add: advance_advance)
  with e show ?case by simp
qed

lemma loop_body_Inr:
  assumes body: "loop_body fv d = Inr d'"
    and p: "state d = Some p"
    and shape: "\<forall>s\<in>set (heap d ! p). is_shape (nat (num_anulus d)) (nat (num_segments d)) s"
  shows "\<exists>ns. applications (Suc (nat (fv - 1))) d (heap d ! p ! time d) =
                 Inr (ns, advance (Suc (nat (fv - 1))) d) \<and>
              Suc (time d) < length (heap d ! p) \<and>
              is_shape (nat (num_anulus d)) (nat (num_segments d)) ns \<and>
              d' = (advance (Suc (nat (fv - 1))) d)
                     \<lparr>time := Suc (time d),
                      heap := (heap d)[p := (heap d ! p)[Suc (time d) := ns]]\<rparr>"
proof -
  let ?H = "heap d ! p"
  let ?K = "Suc (nat (fv - 1))"
  from body p have t: "time d < length ?H"
    by (auto simp: loop_body_def getitem_state_def split: if_splits)
  with p have get: "getitem_state d (time d) = Inr (?H ! time d)"
    by (simp add: getitem_state_def)
  from body get obtain ns1 d1 where u: "update d (?H ! time d) = Inr (ns1, d1)"
    by (auto simp: loop_body_def split: sum.splits)
  from body get u obtain ns d2 where
    il: "inner_loop (nat (fv - 1)) d1 ns1 = Inr (ns, d2)"
    by (auto simp: loop_body_def split: sum.splits)
  from body get u il have
    set: "setitem_state (d2\<lparr>time := time d2 + 1\<rparr>) (time d2 + 1) (Array2 ns) = Inr d'"
    by (simp add: loop_body_def Let_def)
  from u il have app: "applications ?K d (?H ! time d) = Inr (ns, d2)"
    unfolding applications_front by (simp add: inner_loop_applications)
  from applications_Inr [OF app] have d2: "d2 = advance ?K d" .
  from t shape have "is_shape (nat (num_anulus d)) (nat (num_segments d)) (?H ! time d)"
    by simp
  from applications_shape [OF this app]
  have sh: "is_shape (nat (num_anulus d)) (nat (num_segments d)) ns" .
  then have bc: "broadcast_to (nat (num_anulus d)) (nat (num_segments d)) (Array2 ns) = Inr ns"
    by (rule broadcast_to_same)
  from set d2 p have lt: "Suc (time d) < length ?H"
    by (auto simp: setitem_state_def advance_fields split: if_splits)
  from set d2 p lt bc have "d' = (advance ?K d)
                     \<lparr>time := Suc (time d),
                      heap := (heap d)[p := ?H[Suc (time d) := ns]]\<rparr>"
    by (simp add: setitem_state_def advance_fields)
  with app d2 lt sh show ?thesis by blast
qed


lemma advance_time_heap:
  "advance m (e\<lparr>time := a, heap := b\<rparr>) = (advance m e)\<lparr>time := a, heap := b\<rparr>"
  by (simp add: advance_def)

lemma outer_loop_Inr:
  assumes "outer_loop k fv d = Inr d'"
    and "state d = Some p"
    and "p < length (heap d)"
    and "\<forall>s\<in>set (heap d ! p). is_shape (nat (num_anulus d)) (nat (num_segments d)) s"
  shows "\<exists>H. d' = (advance (k * Suc (nat (fv - 1))) d)
                    \<lparr>time := time d + k, heap := (heap d)[p := H]\<rparr> \<and>
             length H = length (heap d ! p) \<and>
             (\<forall>s\<in>set H. is_shape (nat (num_anulus d)) (nat (num_segments d)) s) \<and>
             (\<forall>i\<le>time d. H ! i = heap d ! p ! i) \<and>
             (0 < k \<longrightarrow> time d + k < length H) \<and>
             (\<forall>i<k. applications (Suc (nat (fv - 1))) (advance (i * Suc (nat (fv - 1))) d)
                       (H ! (time d + i)) =
                     Inr (H ! Suc (time d + i), advance (Suc i * Suc (nat (fv - 1))) d))"
  using assms
proof (induction k arbitrary: d)
  case 0
  then have "d' = d" by simp
  then have "d' = (advance (0 * Suc (nat (fv - 1))) d)
                    \<lparr>time := time d + 0, heap := (heap d)[p := heap d ! p]\<rparr>"
    by (simp add: advance_0)
  with "0.prems"(4) show ?case by blast
next
  case (Suc k)
  let ?K = "Suc (nat (fv - 1))"
  let ?A = "nat (num_anulus d)"
  let ?S = "nat (num_segments d)"
  let ?t = "time d"
  let ?H0 = "heap d ! p"
  from Suc.prems(1) obtain d1 where
    body: "loop_body fv d = Inr d1" and rest: "outer_loop k fv d1 = Inr d'"
    by (auto split: sum.splits)
  from loop_body_Inr [OF body Suc.prems(2) Suc.prems(4)] obtain ns where
    app0: "applications ?K d (?H0 ! ?t) = Inr (ns, advance ?K d)" and
    lt: "Suc ?t < length ?H0" and
    sh: "is_shape ?A ?S ns" and
    d1: "d1 = (advance ?K d)\<lparr>time := Suc ?t, heap := (heap d)[p := ?H0[Suc ?t := ns]]\<rparr>"
    by blast
  let ?H1 = "?H0[Suc ?t := ns]"
  have st1: "state d1 = Some p" using d1 Suc.prems(2) by (simp add: advance_fields)
  have hp1: "heap d1 ! p = ?H1" using d1 Suc.prems(3) by simp
  have len1: "p < length (heap d1)" using d1 Suc.prems(3) by simp
  have dims1: "num_anulus d1 = num_anulus d" "num_segments d1 = num_segments d"
    using d1 by (simp_all add: advance_fields)
  have t1: "time d1 = Suc ?t" using d1 by simp
  have shapes1: "\<forall>s\<in>set (heap d1 ! p). is_shape (nat (num_anulus d1)) (nat (num_segments d1)) s"
  proof
    fix s assume "s \<in> set (heap d1 ! p)"
    then have "s \<in> insert ns (set ?H0)"
      using set_update_subset_insert [of ?H0 "Suc ?t" ns] hp1 by auto
    with sh Suc.prems(4) show "is_shape (nat (num_anulus d1)) (nat (num_segments d1)) s"
      by (auto simp: dims1)
  qed
  from Suc.IH [OF rest st1 len1 shapes1] obtain H where
    d': "d' = (advance (k * ?K) d1)\<lparr>time := time d1 + k, heap := (heap d1)[p := H]\<rparr>" and
    lenH: "length H = length (heap d1 ! p)" and
    shapesH: "\<forall>s\<in>set H. is_shape (nat (num_anulus d1)) (nat (num_segments d1)) s" and
    keep: "\<forall>i\<le>time d1. H ! i = heap d1 ! p ! i" and
    bound: "0 < k \<longrightarrow> time d1 + k < length H" and
    apps: "\<forall>i<k. applications ?K (advance (i * ?K) d1) (H ! (time d1 + i)) =
                  Inr (H ! Suc (time d1 + i), advance (Suc i * ?K) d1)"
    by blast
  have c1: "d' = (advance (Suc k * ?K) d)\<lparr>time := ?t + Suc k, heap := (heap d)[p := H]\<rparr>"
  proof -
    define m where "m = Suc k * ?K"
    have "?K + k * ?K = m" by (simp add: m_def)
    then have "advance (k * ?K) d1 =
          (advance m d)\<lparr>time := Suc ?t, heap := (heap d)[p := ?H1]\<rparr>"
      unfolding d1 advance_time_heap advance_advance by simp
    with d' t1 have "d' = (advance m d)\<lparr>time := ?t + Suc k, heap := (heap d)[p := H]\<rparr>"
      by (simp add: d1)
    then show ?thesis unfolding m_def .
  qed
  have c2: "length H = length ?H0" using lenH hp1 by simp
  have c3: "\<forall>s\<in>set H. is_shape ?A ?S s" using shapesH dims1 by simp
  have c4: "\<forall>i\<le>?t. H ! i = ?H0 ! i"
  proof (intro allI impI)
    fix i assume "i \<le> ?t"
    with keep t1 hp1 show "H ! i = ?H0 ! i" by simp
  qed
  have HS: "H ! Suc ?t = ns" using keep t1 hp1 lt by simp
  have c5: "0 < Suc k \<longrightarrow> ?t + Suc k < length H"
    using bound t1 c2 lt by (cases k) simp_all
  have src: "same_source d1 (advance ?K d)"
    using d1 by (simp add: same_source_def advance_fields)
  have c6: "\<forall>i<Suc k. applications ?K (advance (i * ?K) d) (H ! (?t + i)) =
                  Inr (H ! Suc (?t + i), advance (Suc i * ?K) d)"
  proof (intro allI impI)
    fix i assume i: "i < Suc k"
    show "applications ?K (advance (i * ?K) d) (H ! (?t + i)) =
                  Inr (H ! Suc (?t + i), advance (Suc i * ?K) d)"
    proof (cases i)
      case 0
      with app0 c4 HS show ?thesis by (simp add: advance_0)
    next
      case (Suc j)
      with i have "j < k" by simp
      with apps t1 have a: "applications ?K (advance (j * ?K) d1) (H ! (Suc ?t + j)) =
                  Inr (H ! Suc (Suc ?t + j), advance (Suc j * ?K) d1)"
        by simp
      from src have "same_source (advance (j * ?K) d1) (advance (j * ?K) (advance ?K d))"
        by (rule same_source_advance)
      then have "same_source (advance (j * ?K) d1) (advance (Suc j * ?K) d)"
        by (simp add: advance_advance ac_simps)
      from applications_same_source [OF this a]
      have "applications ?K (advance (Suc j * ?K) d) (H ! (Suc ?t + j)) =
            Inr (H ! Suc (Suc ?t + j), advance ?K (advance (Suc j * ?K) d))" .
      then show ?thesis using Suc by (simp add: advance_advance ac_simps)
    qed
  qed
  from c1 c2 c3 c4 c5 c6 show ?case by blast
qed

section \<open>The run loop\<close>

lemma seed_state_Inr:
  assumes seed: "seed_state d = Inr d'" and p: "state d = Some p"
  shows "\<exists>s0. 0 < length (heap d ! p) \<and>
              is_shape (nat (num_anulus d)) (nat (num_segments d)) s0 \<and>
              d' = (advance (seed_pulls d) d)\<lparr>heap := (heap d)[p := (heap d ! p)[0 := s0]]\<rparr> \<and>
              (\<forall>q t. initial_state d = Some (q, t) \<longrightarrow>
                 broadcast_to (nat (num_anulus d)) (nat (num_segments d))
                   (Array2 (heap d ! q ! t)) = Inr s0) \<and>
              (initial_state d = None \<longrightarrow>
                 (\<exists>g v. initial_annulus_generator d = Some g \<and>
                    items g (consumed g) = Some v \<and>
                    broadcast_to (nat (num_anulus d)) (nat (num_segments d)) (Array1 v) =
                      Inr s0))"
proof (cases "initial_state d")
  case None
  with seed obtain g where g: "initial_annulus_generator d = Some g"
    by (cases "initial_annulus_generator d") (simp_all add: seed_state_def)
  with seed None obtain v where v: "items g (consumed g) = Some v"
    by (cases "items g (consumed g)") (simp_all add: seed_state_def next_gen_def)
  let ?d1 = "d\<lparr>initial_annulus_generator := Some (g\<lparr>consumed := Suc (consumed g)\<rparr>)\<rparr>"
  from seed None g v have set: "setitem_state ?d1 0 (Array1 v) = Inr d'"
    by (simp add: seed_state_def next_gen_def)
  from set p have len: "0 < length (heap d ! p)"
    by (simp add: setitem_state_def split: if_splits)
  from set p len obtain s0 where
    bc: "broadcast_to (nat (num_anulus d)) (nat (num_segments d)) (Array1 v) = Inr s0" and
    d': "d' = ?d1\<lparr>heap := (heap d)[p := (heap d ! p)[0 := s0]]\<rparr>"
    by (cases "broadcast_to (nat (num_anulus d)) (nat (num_segments d)) (Array1 v)")
      (simp_all add: setitem_state_def)
  have "?d1 = advance (seed_pulls d) d"
    using None g by (simp add: advance_def seed_pulls_def)
  with d' have c3: "d' = (advance (seed_pulls d) d)
                     \<lparr>heap := (heap d)[p := (heap d ! p)[0 := s0]]\<rparr>"
    by simp
  have c4: "\<forall>q t. initial_state d = Some (q, t) \<longrightarrow>
                 broadcast_to (nat (num_anulus d)) (nat (num_segments d))
                   (Array2 (heap d ! q ! t)) = Inr s0"
    using None by simp
  have "\<exists>g v. initial_annulus_generator d = Some g \<and> items g (consumed g) = Some v \<and>
               broadcast_to (nat (num_anulus d)) (nat (num_segments d)) (Array1 v) = Inr s0"
    by (intro exI [of _ g] exI [of _ v] conjI g v bc)
  then have c5: "initial_state d = None \<longrightarrow>
                 (\<exists>g v. initial_annulus_generator d = Some g \<and>
                    items g (consumed g) = Some v \<and>
                    broadcast_to (nat (num_anulus d)) (nat (num_segments d)) (Array1 v) =
                      Inr s0)" ..
  show ?thesis
    by (intro exI [of _ s0] conjI len broadcast_to_shape [OF bc] c3 c4 c5)
next
  case (Some vw)
  obtain q t where vw: "vw = (q, t)" by (cases vw)
  from seed Some vw have set: "setitem_state d 0 (Array2 (heap d ! q ! t)) = Inr d'"
    by (simp add: seed_state_def)
  from set p have len: "0 < length (heap d ! p)"
    by (simp add: setitem_state_def split: if_splits)
  from set p len obtain s0 where
    bc: "broadcast_to (nat (num_anulus d)) (nat (num_segments d))
           (Array2 (heap d ! q ! t)) = Inr s0" and
    d': "d' = d\<lparr>heap := (heap d)[p := (heap d ! p)[0 := s0]]\<rparr>"
    by (cases "broadcast_to (nat (num_anulus d)) (nat (num_segments d))
           (Array2 (heap d ! q ! t))")
      (simp_all add: setitem_state_def)
  have "d = advance (seed_pulls d) d"
    using Some by (simp add: advance_0 seed_pulls_def)
  with d' have c3: "d' = (advance (seed_pulls d) d)
                     \<lparr>heap := (heap d)[p := (heap d ! p)[0 := s0]]\<rparr>"
    by simp
  have c4: "\<forall>q t. initial_state d = Some (q, t) \<longrightarrow>
                 broadcast_to (nat (num_anulus d)) (nat (num_segments d))
                   (Array2 (heap d ! q ! t)) = Inr s0"
    using Some vw bc by simp
  have c5: "initial_state d = None \<longrightarrow>
                 (\<exists>g v. initial_annulus_generator d = Some g \<and>
                    items g (consumed g) = Some v \<and>
                    broadcast_to (nat (num_anulus d)) (nat (num_segments d)) (Array1 v) =
                      Inr s0)"
    using Some by simp
  show ?thesis
    by (intro exI [of _ s0] conjI len broadcast_to_shape [OF bc] c3 c4 c5)
qed

lemma is_shape_zeros: "is_shape A S (replicate A (replicate S 0))"
  by (simp add: is_shape_def list_all_iff)

lemma run_simulation_Inr:
  assumes run: "run_simulation d n fv = Inr d'"
  shows "0 \<le> n \<and> 0 \<le> num_anulus d \<and> 0 \<le> num_segments d \<and> (time d = 0 \<or> n = 0) \<and>
    (\<exists>H. d' = (advance (seed_pulls d + nat n * Suc (nat (fv - 1))) d)
                 \<lparr>time := time d + nat n, state := Some (length (heap d)),
                  state_observed := Some (np_multiply H
                    (np_triu_ones (nat (num_anulus d)) (nat (num_segments d)))),
                  heap := heap d @ [H]\<rparr> \<and>
       length H = Suc (nat n) \<and>
       (\<forall>s\<in>set H. is_shape (nat (num_anulus d)) (nat (num_segments d)) s) \<and>
       (\<forall>q t. initial_state d = Some (q, t) \<longrightarrow> q < length (heap d) \<longrightarrow>
          broadcast_to (nat (num_anulus d)) (nat (num_segments d))
            (Array2 (heap d ! q ! t)) = Inr (H ! 0)) \<and>
       (initial_state d = None \<longrightarrow>
          (\<exists>g v. initial_annulus_generator d = Some g \<and> items g (consumed g) = Some v \<and>
             broadcast_to (nat (num_anulus d)) (nat (num_segments d)) (Array1 v) =
               Inr (H ! 0))) \<and>
       (\<forall>i<nat n. applications (Suc (nat (fv - 1)))
                    (advance (seed_pulls d + i * Suc (nat (fv - 1))) d) (H ! i) =
                  Inr (H ! Suc i, advance (seed_pulls d + Suc i * Suc (nat (fv - 1))) d)))"
proof -
  let ?K = "Suc (nat (fv - 1))"
  let ?A = "nat (num_anulus d)"
  let ?S = "nat (num_segments d)"
  let ?p = "length (heap d)"
  let ?c = "seed_pulls d"
  define z where "z = replicate (nat (n + 1)) (replicate ?A (replicate ?S (0::real)))"
  define d1 where "d1 = d\<lparr>state := Some ?p, heap := heap d @ [z]\<rparr>"
  from run have dims: "0 \<le> n + 1" "0 \<le> num_anulus d" "0 \<le> num_segments d"
    by (auto simp: run_simulation_def np_zeros_def split: if_splits)
  then have zeros: "np_zeros (n + 1) (num_anulus d) (num_segments d) = Inr z"
    by (simp add: np_zeros_def z_def)
  from run zeros obtain d2 where seed: "seed_state d1 = Inr d2"
    by (auto simp: run_simulation_def Let_def d1_def split: sum.splits)
  from run zeros seed obtain d3 where loop: "outer_loop (nat n) fv d2 = Inr d3"
    by (auto simp: run_simulation_def Let_def d1_def split: sum.splits)
  from run zeros seed loop obtain m where ext: "extract_state d3 = Inr m"
    and d': "d' = d3\<lparr>state_observed := Some m\<rparr>"
    by (auto simp: run_simulation_def Let_def d1_def split: sum.splits)
  have st1: "state d1 = Some ?p" and hp1: "heap d1 ! ?p = z"
    and dims1: "num_anulus d1 = num_anulus d" "num_segments d1 = num_segments d"
    and init1: "initial_state d1 = initial_state d"
    and gen1: "initial_annulus_generator d1 = initial_annulus_generator d"
    and pulls1: "seed_pulls d1 = seed_pulls d"
    by (simp_all add: d1_def seed_pulls_def)
  from seed_state_Inr [OF seed st1] obtain s0 where
    lenz: "0 < length z" and sh0: "is_shape ?A ?S s0" and
    d2: "d2 = (advance ?c d1)\<lparr>heap := (heap d1)[?p := z[0 := s0]]\<rparr>" and
    seed_view: "\<forall>q t. initial_state d = Some (q, t) \<longrightarrow>
                 broadcast_to ?A ?S (Array2 (heap d1 ! q ! t)) = Inr s0" and
    seed_pull: "initial_state d = None \<longrightarrow>
                 (\<exists>g v. initial_annulus_generator d = Some g \<and>
                    items g (consumed g) = Some v \<and>
                    broadcast_to ?A ?S (Array1 v) = Inr s0)"
    unfolding hp1 dims1 init1 gen1 pulls1 by (elim exE conjE) (rule that)
  from lenz have n0: "0 \<le> n" by (simp add: z_def)
  let ?z0 = "z[0 := s0]"
  have heap2: "heap d2 = heap d @ [?z0]" by (simp add: d2 d1_def)
  have st2: "state d2 = Some ?p" by (simp add: d2 d1_def advance_fields)
  have len2: "?p < length (heap d2)" by (simp add: heap2)
  have hp2: "heap d2 ! ?p = ?z0" by (simp add: heap2)
  have dims2: "num_anulus d2 = num_anulus d" "num_segments d2 = num_segments d"
    and t2: "time d2 = time d"
    by (simp_all add: d2 d1_def advance_fields)
  have shapes2: "\<forall>s\<in>set (heap d2 ! ?p). is_shape (nat (num_anulus d2)) (nat (num_segments d2)) s"
  proof
    fix s assume "s \<in> set (heap d2 ! ?p)"
    then have "s \<in> insert s0 (set z)"
      using set_update_subset_insert [of z 0 s0] hp2 by auto
    with sh0 show "is_shape (nat (num_anulus d2)) (nat (num_segments d2)) s"
      by (auto simp: dims2 z_def is_shape_zeros)
  qed
  from outer_loop_Inr [OF loop st2 len2 shapes2] obtain H where
    d3: "d3 = (advance (nat n * ?K) d2)\<lparr>time := time d + nat n, heap := (heap d2)[?p := H]\<rparr>" and
    lenH: "length H = length ?z0" and
    shapesH: "\<forall>s\<in>set H. is_shape ?A ?S s" and
    keep: "\<forall>i\<le>time d. H ! i = ?z0 ! i" and
    bound: "0 < nat n \<longrightarrow> time d + nat n < length H" and
    apps: "\<forall>i<nat n. applications ?K (advance (i * ?K) d2) (H ! (time d + i)) =
                  Inr (H ! Suc (time d + i), advance (Suc i * ?K) d2)"
    unfolding hp2 dims2 t2 by (elim exE conjE) (rule that)
  have lenH': "length H = Suc (nat n)" using lenH n0 by (simp add: z_def nat_add_distrib)
  have t0: "time d = 0 \<or> n = 0" using bound lenH' n0 by auto
  have H0: "H ! 0 = s0" using keep lenz by simp
  have heap3: "heap d3 = heap d @ [H]" by (simp add: d3 heap2)
  have m: "m = np_multiply H (np_triu_ones ?A ?S)"
    using ext by (simp add: extract_state_def d3 heap2 st2 advance_fields dims2)
  have c1: "d' = (advance (?c + nat n * ?K) d)
                 \<lparr>time := time d + nat n, state := Some ?p,
                  state_observed := Some (np_multiply H (np_triu_ones ?A ?S)),
                  heap := heap d @ [H]\<rparr>"
  proof -
    define j where "j = nat n * ?K"
    have "advance j (advance ?c d) = advance (?c + j) d" by (rule advance_advance)
    then show ?thesis
      unfolding d' d3 d2 d1_def m j_def [symmetric]
      by (cases "initial_annulus_generator d") (simp_all add: advance_def)
  qed
  have c2: "\<forall>q t. initial_state d = Some (q, t) \<longrightarrow> q < ?p \<longrightarrow>
          broadcast_to ?A ?S (Array2 (heap d ! q ! t)) = Inr (H ! 0)"
  proof (intro allI impI)
    fix q t assume vw: "initial_state d = Some (q, t)" and q: "q < ?p"
    from seed_view vw have "broadcast_to ?A ?S (Array2 (heap d1 ! q ! t)) = Inr s0"
      by blast
    moreover from q have "heap d1 ! q = heap d ! q"
      by (simp add: d1_def nth_append)
    ultimately show "broadcast_to ?A ?S (Array2 (heap d ! q ! t)) = Inr (H ! 0)"
      using H0 by (simp del: broadcast_to.simps)
  qed
  have c3: "initial_state d = None \<longrightarrow>
          (\<exists>g v. initial_annulus_generator d = Some g \<and> items g (consumed g) = Some v \<and>
             broadcast_to ?A ?S (Array1 v) = Inr (H ! 0))"
    using seed_pull H0 by (simp del: broadcast_to.simps)
  have src: "same_source d2 (advance ?c d)"
    by (simp add: d2 d1_def same_source_def advance_fields)
  have c4: "\<forall>i<nat n. applications ?K (advance (?c + i * ?K) d) (H ! i) =
                  Inr (H ! Suc i, advance (?c + Suc i * ?K) d)"
  proof (intro allI impI)
    fix i assume i: "i < nat n"
    with t0 have t: "time d = 0" by auto
    from apps i t have a: "applications ?K (advance (i * ?K) d2) (H ! i) =
                  Inr (H ! Suc i, advance (Suc i * ?K) d2)"
      by simp
    from src have "same_source (advance (i * ?K) d2) (advance (i * ?K) (advance ?c d))"
      by (rule same_source_advance)
    then have "same_source (advance (i * ?K) d2) (advance (?c + i * ?K) d)"
      by (simp only: advance_advance)
    from applications_same_source [OF this a]
    have "applications ?K (advance (?c + i * ?K) d) (H ! i) =
          Inr (H ! Suc i, advance ?K (advance (?c + i * ?K) d))" .
    then show "applications ?K (advance (?c + i * ?K) d) (H ! i) =
                  Inr (H ! Suc i, advance (?c + Suc i * ?K) d)"
      by (simp add: advance_advance ac_simps)
  qed
  show ?thesis
    by (intro conjI exI [of _ H] n0 dims(2) dims(3) t0 c1 lenH' shapesH c2 c3 c4)
qed

text \<open>The result of a call that returns, fact by fact.\<close>

lemma run_simulation_cases:
  assumes "run_simulation d n fv = Inr d'"
  obtains H where
    "0 \<le> n" and "0 \<le> num_anulus d" and "0 \<le> num_segments d" and
    "time d = 0 \<or> n = 0" and
    "d' = (advance (seed_pulls d + nat n * Suc (nat (fv - 1))) d)
                 \<lparr>time := time d + nat n, state := Some (length (heap d)),
                  state_observed := Some (np_multiply H
                    (np_triu_ones (nat (num_anulus d)) (nat (num_segments d)))),
                  heap := heap d @ [H]\<rparr>" and
    "the_history d' = Some H" and
    "length H = Suc (nat n)" and
    "\<forall>s\<in>set H. is_shape (nat (num_anulus d)) (nat (num_segments d)) s" and
    "\<forall>q t. initial_state d = Some (q, t) \<longrightarrow> q < length (heap d) \<longrightarrow>
          broadcast_to (nat (num_anulus d)) (nat (num_segments d))
            (Array2 (heap d ! q ! t)) = Inr (H ! 0)" and
    "initial_state d = None \<longrightarrow>
          (\<exists>g v. initial_annulus_generator d = Some g \<and> items g (consumed g) = Some v \<and>
             broadcast_to (nat (num_anulus d)) (nat (num_segments d)) (Array1 v) =
               Inr (H ! 0))" and
    "\<forall>i<nat n. applications (Suc (nat (fv - 1)))
                    (advance (seed_pulls d + i * Suc (nat (fv - 1))) d) (H ! i) =
                  Inr (H ! Suc i, advance (seed_pulls d + Suc i * Suc (nat (fv - 1))) d)"
proof -
  from run_simulation_Inr [OF assms] obtain H where
    a: "0 \<le> n" "0 \<le> num_anulus d" "0 \<le> num_segments d" "time d = 0 \<or> n = 0" and
    d': "d' = (advance (seed_pulls d + nat n * Suc (nat (fv - 1))) d)
                 \<lparr>time := time d + nat n, state := Some (length (heap d)),
                  state_observed := Some (np_multiply H
                    (np_triu_ones (nat (num_anulus d)) (nat (num_segments d)))),
                  heap := heap d @ [H]\<rparr>" and
    b: "length H = Suc (nat n)"
       "\<forall>s\<in>set H. is_shape (nat (num_anulus d)) (nat (num_segments d)) s"
       "\<forall>q t. initial_state d = Some (q, t) \<longrightarrow> q < length (heap d) \<longrightarrow>
          broadcast_to (nat (num_anulus d)) (nat (num_segments d))
            (Array2 (heap d ! q ! t)) = Inr (H ! 0)"
       "initial_state d = None \<longrightarrow>
          (\<exists>g v. initial_annulus_generator d = Some g \<and> items g (consumed g) = Some v \<and>
             broadcast_to (nat (num_anulus d)) (nat (num_segments d)) (Array1 v) =
               Inr (H ! 0))"
       "\<forall>i<nat n. applications (Suc (nat (fv - 1)))
                    (advance (seed_pulls d + i * Suc (nat (fv - 1))) d) (H ! i) =
                  Inr (H ! Suc i, advance (seed_pulls d + Suc i * Suc (nat (fv - 1))) d)"
    by (elim exE conjE)
  have h: "the_history d' = Some H" by (simp add: d' the_history_def)
  show thesis by (rule that; fact)
qed

section \<open>Properties of the simulation\<close>

lemma evaluated: "\<not> isl x \<Longrightarrow> x = Inr (projr x)"
  by (cases x) simp_all

text \<open>
  C1, amended: \<open>run_simulation\<close> does not reinitialize \<open>time\<close>. A call that returns has
  \<open>num_steps \<ge> 0\<close>, was begun with \<open>time = 0\<close> or has \<open>num_steps = 0\<close>, and leaves \<open>time\<close>
  at its value at entry plus \<open>num_steps\<close>. So after a call begun with \<open>time = 0\<close> (after
  construction, \<open>initialize\<close> or \<open>reset\<close>) \<open>time\<close> equals \<open>num_steps\<close>, and a call begun
  with \<open>time > 0\<close> and \<open>num_steps \<ge> 1\<close> does not return.
\<close>

theorem run_simulation_time:
  "run_simulation d num_steps flow_velocity = Inr d' \<Longrightarrow>
   0 \<le> num_steps \<and> (time d = 0 \<or> num_steps = 0) \<and> int (time d') = int (time d) + num_steps"
proof -
  assume "run_simulation d num_steps flow_velocity = Inr d'"
  then obtain H where "0 \<le> num_steps" "time d = 0 \<or> num_steps = 0"
    and "d' = (advance (seed_pulls d + nat num_steps * Suc (nat (flow_velocity - 1))) d)
                 \<lparr>time := time d + nat num_steps, state := Some (length (heap d)),
                  state_observed := Some (np_multiply H
                    (np_triu_ones (nat (num_anulus d)) (nat (num_segments d)))),
                  heap := heap d @ [H]\<rparr>"
    by (rule run_simulation_cases)
  then show ?thesis by simp
qed

theorem run_simulation_time_witness:
  "\<not> isl (run_simulation (example_disk (1 / 2)) 2 1) \<and>
   time (example_disk (1 / 2)) = 0 \<and>
   time (projr (run_simulation (example_disk (1 / 2)) 2 1)) = 2"
proof -
  have r: "\<not> isl (run_simulation (example_disk (1 / 2)) 2 1)" by code_simp
  have t: "time (example_disk (1 / 2)) = 0" by (simp add: example_disk_def DiskPropagation_def)
  from run_simulation_time [OF evaluated [OF r]] r t show ?thesis by simp
qed

text \<open>
  After \<open>run_simulation(1)\<close> the instance has \<open>time = 1\<close>. Without a reset,
  \<open>run_simulation(0)\<close> then returns with \<open>time = 1\<close>, not 0, and \<open>run_simulation(1)\<close> raises
  \<open>IndexError\<close> at \<open>self.state[2]\<close>.
\<close>

theorem run_simulation_time_counterexample:
  "\<not> isl (run_simulation (example_disk (1 / 2)) 1 1) \<and>
   time (projr (run_simulation (example_disk (1 / 2)) 1 1)) = 1 \<and>
   \<not> isl (run_simulation (projr (run_simulation (example_disk (1 / 2)) 1 1)) 0 1) \<and>
   time (projr (run_simulation (projr (run_simulation (example_disk (1 / 2)) 1 1)) 0 1)) = 1 \<and>
   isl (run_simulation (projr (run_simulation (example_disk (1 / 2)) 1 1)) 1 1) \<and>
   projl (run_simulation (projr (run_simulation (example_disk (1 / 2)) 1 1)) 1 1) = IndexError"
  by code_simp

subsection \<open>Degenerate parameters\<close>







subsection \<open>The observation mask\<close>




lemma is_shape_nth: "is_shape A S m \<Longrightarrow> a < A \<Longrightarrow> length (m ! a) = S"
  by (simp add: is_shape_def list_all_length)





subsection \<open>The history array\<close>

text \<open>
  C8: a \<open>run_simulation(num_steps, flow_velocity)\<close> call that returns has
  \<open>num_steps \<ge> 0\<close> and leaves a history array of exactly \<open>num_steps + 1\<close> snapshots, each of
  shape \<open>(num_anulus, num_segments)\<close>, with the observed-state array computed from it. Its
  slot 0 is the seed: the initial state if there is one, the broadcast of one pull
  otherwise. For \<open>num_steps = 0\<close> the history holds the seed snapshot only.
\<close>

theorem history_length:
  assumes "run_simulation d num_steps flow_velocity = Inr d'"
  shows "0 \<le> num_steps \<and>
    (\<exists>H. the_history d' = Some H \<and> int (length H) = num_steps + 1 \<and>
       (\<forall>t<length H. is_shape (nat (num_anulus d')) (nat (num_segments d')) (H ! t)) \<and>
       state_observed d' =
         Some (np_multiply H (np_triu_ones (nat (num_anulus d')) (nat (num_segments d')))) \<and>
       (\<forall>q t. initial_state d = Some (q, t) \<longrightarrow> q < length (heap d) \<longrightarrow>
          broadcast_to (nat (num_anulus d)) (nat (num_segments d))
            (Array2 (heap d ! q ! t)) = Inr (H ! 0)) \<and>
       (initial_state d = None \<longrightarrow>
          (\<exists>g v. initial_annulus_generator d = Some g \<and> items g (consumed g) = Some v \<and>
             broadcast_to (nat (num_anulus d)) (nat (num_segments d)) (Array1 v) =
               Inr (H ! 0))) \<and>
       (num_steps = 0 \<longrightarrow> H = [H ! 0]))"
proof -
  let ?A = "nat (num_anulus d)" and ?S = "nat (num_segments d)"
  from assms obtain H where
    n: "0 \<le> num_steps" and
    d': "d' = (advance (seed_pulls d + nat num_steps * Suc (nat (flow_velocity - 1))) d)
                 \<lparr>time := time d + nat num_steps, state := Some (length (heap d)),
                  state_observed := Some (np_multiply H (np_triu_ones ?A ?S)),
                  heap := heap d @ [H]\<rparr>" and
    h: "the_history d' = Some H" and
    len: "length H = Suc (nat num_steps)" and
    shapes: "\<forall>s\<in>set H. is_shape ?A ?S s" and
    view: "\<forall>q t. initial_state d = Some (q, t) \<longrightarrow> q < length (heap d) \<longrightarrow>
          broadcast_to ?A ?S (Array2 (heap d ! q ! t)) = Inr (H ! 0)" and
    pull: "initial_state d = None \<longrightarrow>
          (\<exists>g v. initial_annulus_generator d = Some g \<and> items g (consumed g) = Some v \<and>
             broadcast_to ?A ?S (Array1 v) = Inr (H ! 0))"
    by (rule run_simulation_cases)
  have dims: "num_anulus d' = num_anulus d" "num_segments d' = num_segments d"
    and ob: "state_observed d' = Some (np_multiply H (np_triu_ones ?A ?S))"
    by (simp_all add: d' advance_fields)
  have c1: "int (length H) = num_steps + 1" using len n by simp
  have c2: "\<forall>t<length H. is_shape ?A ?S (H ! t)" using shapes by simp
  have c3: "num_steps = 0 \<longrightarrow> H = [H ! 0]"
  proof
    assume "num_steps = 0"
    with len have "length H = 1" by simp
    then show "H = [H ! 0]" by (cases H) simp_all
  qed
  show ?thesis
    unfolding dims by (intro conjI exI [of _ H] n h c1 c2 ob view pull c3)
qed

theorem history_length_witness:
  "\<not> isl (run_simulation (example_disk (1 / 2)) 0 1) \<and>
   the_history (projr (run_simulation (example_disk (1 / 2)) 0 1)) =
     Some [[[1, 1, 1], [1, 1, 1], [1, 1, 1]]] \<and>
   state_observed (projr (run_simulation (example_disk (1 / 2)) 0 1)) =
     Some [[[1, 1, 1], [0, 1, 1], [0, 0, 1]]] \<and>
   (\<exists>H. the_history (projr (run_simulation (example_disk (1 / 2)) 0 1)) = Some H \<and>
      int (length H) = 0 + 1 \<and> H = [H ! 0])"
proof -
  let ?r = "run_simulation (example_disk (1 / 2)) 0 1"
  have r: "\<not> isl ?r" by code_simp
  have h: "the_history (projr ?r) = Some [[[1, 1, 1], [1, 1, 1], [1, 1, 1]]]"
    by code_simp
  have ob: "state_observed (projr ?r) = Some [[[1, 1, 1], [0, 1, 1], [0, 0, 1]]]"
    by code_simp
  from history_length [OF evaluated [OF r]] obtain H where
    "the_history (projr ?r) = Some H" "int (length H) = 0 + 1" "(0::int) = 0 \<longrightarrow> H = [H ! 0]"
    by blast
  with r h ob show ?thesis by blast
qed

subsection \<open>Seeding without an initial state\<close>

text \<open>
  C10: when \<open>initial_state\<close> is unset and the next value \<open>v\<close> of the Boundary Source is a
  vector of length \<open>num_segments\<close>, a \<open>run_simulation\<close> call that returns has seeded slot 0
  with \<open>v\<close> in every annulus: \<open>history[0][a][s] = v[s]\<close> for every annulus \<open>a\<close> and segment
  \<open>s\<close>, and all rows of the seed snapshot are identical. The seeding takes one pull: the
  source ends \<open>1 + num_steps * (1 + max(flow_velocity - 1, 0))\<close> pulls further, which is
  one pull with \<open>num_steps = 0\<close>.
\<close>

theorem seed_broadcast:
  assumes "initial_state d = None"
    and "initial_annulus_generator d = Some g"
    and "items g (consumed g) = Some v"
    and "length v = nat (num_segments d)"
    and "run_simulation d num_steps flow_velocity = Inr d'"
  shows "\<exists>H. the_history d' = Some H \<and>
           length (H ! 0) = nat (num_anulus d) \<and>
           (\<forall>a<nat (num_anulus d). \<forall>s<nat (num_segments d). H ! 0 ! a ! s = v ! s) \<and>
           (\<forall>a<nat (num_anulus d). \<forall>b<nat (num_anulus d). H ! 0 ! a = H ! 0 ! b) \<and>
           initial_annulus_generator d' =
             Some (g\<lparr>consumed := consumed g + 1 +
                      nat num_steps * nat (1 + max (flow_velocity - 1) 0)\<rparr>)"
proof -
  let ?A = "nat (num_anulus d)" and ?S = "nat (num_segments d)"
  from assms(5) obtain H where
    d': "d' = (advance (seed_pulls d + nat num_steps * Suc (nat (flow_velocity - 1))) d)
                 \<lparr>time := time d + nat num_steps, state := Some (length (heap d)),
                  state_observed := Some (np_multiply H (np_triu_ones ?A ?S)),
                  heap := heap d @ [H]\<rparr>" and
    h: "the_history d' = Some H" and
    pull: "initial_state d = None \<longrightarrow>
          (\<exists>g v. initial_annulus_generator d = Some g \<and> items g (consumed g) = Some v \<and>
             broadcast_to ?A ?S (Array1 v) = Inr (H ! 0))"
    by (rule run_simulation_cases)
  from pull assms(1-3) have "broadcast_to ?A ?S (Array1 v) = Inr (H ! 0)" by simp
  with assms(4) have H0: "H ! 0 = replicate ?A v"
    by (simp add: broadcast_list_same)
  have K: "nat (1 + max (flow_velocity - 1) 0) = Suc (nat (flow_velocity - 1))" by simp
  have gen: "initial_annulus_generator d' =
             Some (g\<lparr>consumed := consumed g + 1 +
                      nat num_steps * nat (1 + max (flow_velocity - 1) 0)\<rparr>)"
    unfolding K using assms(1,2) by (simp add: d' advance_fields seed_pulls_def)
  have c1: "length (H ! 0) = ?A" using H0 by simp
  have c2: "\<forall>a<?A. \<forall>s<?S. H ! 0 ! a ! s = v ! s" using H0 by simp
  have c3: "\<forall>a<?A. \<forall>b<?A. H ! 0 ! a = H ! 0 ! b" using H0 by simp
  show ?thesis by (intro exI [of _ H] conjI h c1 c2 c3 gen)
qed

theorem seed_broadcast_witness:
  "initial_state (example_disk (1 / 2)) = None \<and>
   initial_annulus_generator (example_disk (1 / 2)) = Some (constant_source [1, 1, 1]) \<and>
   items (constant_source [1, 1, 1]) (consumed (constant_source [1, 1, 1])) = Some [1, 1, 1] \<and>
   length [1, 1, 1 :: real] = nat (num_segments (example_disk (1 / 2))) \<and>
   \<not> isl (run_simulation (example_disk (1 / 2)) 0 1) \<and>
   (\<exists>H. the_history (projr (run_simulation (example_disk (1 / 2)) 0 1)) = Some H \<and>
      H ! 0 ! 2 ! 1 = [1, 1, 1] ! 1 \<and> H ! 0 ! 0 = H ! 0 ! 2) \<and>
   map_option consumed
     (initial_annulus_generator (projr (run_simulation (example_disk (1 / 2)) 0 1))) = Some 1"
proof -
  let ?d = "example_disk (1 / 2)"
  let ?r = "run_simulation ?d 0 1"
  have a1: "initial_state ?d = None"
    and a2: "initial_annulus_generator ?d = Some (constant_source [1, 1, 1])"
    and a3: "items (constant_source [1, 1, 1]) (consumed (constant_source [1, 1, 1])) =
             Some [1, 1, 1]"
    and a4: "length [1, 1, 1 :: real] = nat (num_segments ?d)"
    by (simp_all add: example_disk_def DiskPropagation_def constant_source_def)
  have r: "\<not> isl ?r" by code_simp
  from seed_broadcast [OF a1 a2 a3 a4 evaluated [OF r]] obtain H where
    h: "the_history (projr ?r) = Some H" and
    e: "\<forall>a<nat (num_anulus ?d). \<forall>s<nat (num_segments ?d). H ! 0 ! a ! s = [1, 1, 1] ! s"
       "\<forall>a<nat (num_anulus ?d). \<forall>b<nat (num_anulus ?d). H ! 0 ! a = H ! 0 ! b" and
    g: "initial_annulus_generator (projr ?r) =
             Some ((constant_source [1, 1, 1])
               \<lparr>consumed := consumed (constant_source [1, 1, 1]) + 1 +
                      nat 0 * nat (1 + max (1 - 1) 0)\<rparr>)"
    by (elim exE conjE)
  have S: "nat (num_segments ?d) = 3" "nat (num_anulus ?d) = 3"
    by (simp_all add: example_disk_def DiskPropagation_def)
  have e1: "H ! 0 ! 2 ! 1 = [1, 1, 1] ! 1" using e(1) [rule_format, of 2 1] S by simp
  have e2: "H ! 0 ! 0 = H ! 0 ! 2" using e(2) [rule_format, of 0 2] S by simp
  from g have c: "map_option consumed (initial_annulus_generator (projr ?r)) = Some 1"
    by (simp add: constant_source_def)
  have ex: "\<exists>H. the_history (projr ?r) = Some H \<and>
      H ! 0 ! 2 ! 1 = [1, 1, 1] ! 1 \<and> H ! 0 ! 0 = H ! 0 ! 2"
    by (intro exI [of _ H] conjI h e1 e2)
  show ?thesis by (intro conjI a1 a2 a3 a4 r ex c)
qed

subsection \<open>Sub-stepping\<close>

text \<open>
  C5: in a \<open>run_simulation(num_steps, flow_velocity)\<close> call that returns, every recorded
  step makes exactly \<open>1 + max(flow_velocity - 1, 0)\<close> applications of the Step Function
  (one for \<open>flow_velocity = 0\<close> as for \<open>flow_velocity = 1\<close>), each on the output of the one
  before, starting from the previous snapshot of the history, and the snapshot stored for
  the step is the result of the last one; the results in between are not stored: the
  history has \<open>num_steps + 1\<close> snapshots. Each application is one pull, so step \<open>i\<close>
  starts with the Boundary Source \<open>i * (1 + max(flow_velocity - 1, 0))\<close> pulls after the
  seeding. The Step Function reads the rate and the Boundary Source of the instance and
  nothing else of it, so the instance a step starts from is given as \<open>d\<close> with its source
  advanced.
\<close>

theorem applications_per_step:
  assumes "run_simulation d num_steps flow_velocity = Inr d'"
  shows "\<exists>H. the_history d' = Some H \<and> length H = nat num_steps + 1 \<and>
           (\<forall>i<nat num_steps.
              applications (nat (1 + max (flow_velocity - 1) 0))
                (advance (seed_pulls d + i * nat (1 + max (flow_velocity - 1) 0)) d) (H ! i) =
              Inr (H ! Suc i,
                   advance (seed_pulls d + Suc i * nat (1 + max (flow_velocity - 1) 0)) d)) \<and>
           initial_annulus_generator d' =
             initial_annulus_generator
               (advance (seed_pulls d + nat num_steps * nat (1 + max (flow_velocity - 1) 0)) d)"
proof -
  have K: "nat (1 + max (flow_velocity - 1) 0) = Suc (nat (flow_velocity - 1))" by simp
  from assms obtain H where
    d': "d' = (advance (seed_pulls d + nat num_steps * Suc (nat (flow_velocity - 1))) d)
                 \<lparr>time := time d + nat num_steps, state := Some (length (heap d)),
                  state_observed := Some (np_multiply H
                    (np_triu_ones (nat (num_anulus d)) (nat (num_segments d)))),
                  heap := heap d @ [H]\<rparr>" and
    h: "the_history d' = Some H" and
    len: "length H = Suc (nat num_steps)" and
    apps: "\<forall>i<nat num_steps. applications (Suc (nat (flow_velocity - 1)))
                    (advance (seed_pulls d + i * Suc (nat (flow_velocity - 1))) d) (H ! i) =
                  Inr (H ! Suc i,
                       advance (seed_pulls d + Suc i * Suc (nat (flow_velocity - 1))) d)"
    by (rule run_simulation_cases)
  have len': "length H = nat num_steps + 1" using len by simp
  have gen: "initial_annulus_generator d' =
             initial_annulus_generator
               (advance (seed_pulls d + nat num_steps * Suc (nat (flow_velocity - 1))) d)"
    by (simp add: d')
  show ?thesis
    unfolding K by (intro exI [of _ H] conjI h len' apps gen)
qed

theorem applications_per_step_witness:
  "\<not> isl (run_simulation (example_disk (1 / 2)) 1 2) \<and>
   the_history (projr (run_simulation (example_disk (1 / 2)) 1 2)) =
     Some [[[1, 1, 1], [1, 1, 1], [1, 1, 1]],
           [[1, 1, 1], [1 / 4, 1 / 2, 1 / 2], [1 / 16, 3 / 16, 1 / 4]]] \<and>
   applications 2 (advance 1 (example_disk (1 / 2))) [[1, 1, 1], [1, 1, 1], [1, 1, 1]] =
     Inr ([[1, 1, 1], [1 / 4, 1 / 2, 1 / 2], [1 / 16, 3 / 16, 1 / 4]],
          advance 3 (example_disk (1 / 2))) \<and>
   map_option consumed
     (initial_annulus_generator (projr (run_simulation (example_disk (1 / 2)) 1 2))) = Some 3"
proof -
  let ?d = "example_disk (1 / 2)"
  let ?r = "run_simulation ?d 1 2"
  have r: "\<not> isl ?r" by code_simp
  have hv: "the_history (projr ?r) =
     Some [[[1, 1, 1], [1, 1, 1], [1, 1, 1]],
           [[1, 1, 1], [1 / 4, 1 / 2, 1 / 2], [1 / 16, 3 / 16, 1 / 4]]]"
    by code_simp
  have c: "map_option consumed (initial_annulus_generator (projr ?r)) = Some 3"
    by code_simp
  have K: "nat (1 + max (2 - 1) 0) = 2" by simp
  have p: "seed_pulls ?d = 1" by (simp add: seed_pulls_def example_disk_def DiskPropagation_def)
  from applications_per_step [OF evaluated [OF r]] obtain H where
    h: "the_history (projr ?r) = Some H" and
    apps: "\<forall>i<nat 1.
              applications (nat (1 + max (2 - 1) 0))
                (advance (seed_pulls ?d + i * nat (1 + max (2 - 1) 0)) ?d) (H ! i) =
              Inr (H ! Suc i, advance (seed_pulls ?d + Suc i * nat (1 + max (2 - 1) 0)) ?d)"
    by (elim exE conjE)
  from h hv have H: "H = [[[1, 1, 1], [1, 1, 1], [1, 1, 1]],
           [[1, 1, 1], [1 / 4, 1 / 2, 1 / 2], [1 / 16, 3 / 16, 1 / 4]]]"
    by simp
  have a: "applications 2 (advance 1 ?d) [[1, 1, 1], [1, 1, 1], [1, 1, 1]] =
     Inr ([[1, 1, 1], [1 / 4, 1 / 2, 1 / 2], [1 / 16, 3 / 16, 1 / 4]], advance 3 ?d)"
    using apps [rule_format, of 0] unfolding K p H
    by (simp del: applications.simps add: numeral_3_eq_3)
  show ?thesis by (intro conjI r hv a c)
qed

subsection \<open>The Step Function\<close>

text \<open>
  C6: an application of the Step Function to a snapshot of shape \<open>(A, S)\<close> that returns
  (1) smooths each annulus row with the kernel \<open>[rate/2, rate/2]\<close> along the segment axis,
  the output having the shape of the input: entry \<open>s\<close> is \<open>rate/2\<close> times the entry \<open>s\<close>
  plus \<open>rate/2\<close> times the entry \<open>s - 1\<close> (0 to the left of segment 0); (2) shifts the
  smoothed array circularly by one along the annulus axis: annulus \<open>a\<close> moves to annulus
  \<open>(a + 1) mod A\<close>, the last one to 0; (3) overwrites annulus 0 with the vector pulled from
  the Boundary Source. The result is a new array; of the instance only the Boundary
  Source changes, which is exactly one pull further, so no stored array is modified.
\<close>

theorem update_step_function:
  assumes "update d current_state = Inr (next_state, d')"
    and "is_shape A S current_state"
  shows "\<exists>g v row smoothed shifted.
           initial_annulus_generator d = Some g \<and> items g (consumed g) = Some v \<and>
           broadcast_list S v = Inr row \<and> (length v = S \<longrightarrow> row = v) \<and>
           0 < A \<and>
           smoothed = convolve2d_same current_state
             (total_convolve_rate d / 2, total_convolve_rate d / 2) \<and>
           is_shape A S smoothed \<and>
           (\<forall>a<A. \<forall>s<S.
              smoothed ! a ! s =
                total_convolve_rate d / 2 * current_state ! a ! s +
                total_convolve_rate d / 2 * (if s = 0 then 0 else current_state ! a ! (s - 1))) \<and>
           shifted = np_roll 1 smoothed \<and>
           is_shape A S shifted \<and>
           (\<forall>a<A. shifted ! ((a + 1) mod A) = smoothed ! a) \<and>
           next_state = shifted[0 := row] \<and>
           is_shape A S next_state \<and>
           next_state ! 0 = row \<and>
           (\<forall>a s. Suc a < A \<longrightarrow> s < S \<longrightarrow>
              next_state ! Suc a ! s =
                total_convolve_rate d / 2 * current_state ! a ! s +
                total_convolve_rate d / 2 * (if s = 0 then 0 else current_state ! a ! (s - 1))) \<and>
           d' = d\<lparr>initial_annulus_generator := Some (g\<lparr>consumed := consumed g + 1\<rparr>)\<rparr>"
proof -
  let ?w = "total_convolve_rate d / 2"
  let ?smoothed = "convolve2d_same current_state (?w, ?w)"
  let ?shifted = "np_roll 1 ?smoothed"
  have w: "(1 * total_convolve_rate d / 2, 1 * total_convolve_rate d / 2) = (?w, ?w)"
    by simp
  from update_Inr [OF assms(1)] obtain g v row where
    g: "initial_annulus_generator d = Some g" and
    v: "items g (consumed g) = Some v" and
    adv: "d' = advance 1 d" and
    ne: "current_state \<noteq> []" and
    bc: "broadcast_list (length (?shifted ! 0)) v = Inr row" and
    ns: "next_state = ?shifted[0 := row]"
    unfolding w by (elim exE conjE)
  have lenA: "length current_state = A" using assms(2) by (simp add: is_shape_def)
  with ne have A: "0 < A" by (cases current_state) auto
  have sm: "is_shape A S ?smoothed" using assms(2) by (rule is_shape_convolve2d_same)
  then have sh: "is_shape A S ?shifted" by (rule is_shape_np_roll)
  have len_sm: "length ?smoothed = A" using sm by (simp add: is_shape_def)
  have len_sh: "length ?shifted = A" using sh by (simp add: is_shape_def)
  have "length (?shifted ! 0) = S" using sh A by (rule is_shape_nth)
  with bc have bc': "broadcast_list S v = Inr row" by simp
  then have row_len: "length row = S" by (rule broadcast_list_length)
  have row_v: "length v = S \<longrightarrow> row = v"
    using bc' by (auto simp: broadcast_list_same)
  have smooth: "\<forall>a<A. \<forall>s<S. ?smoothed ! a ! s =
      ?w * current_state ! a ! s + ?w * (if s = 0 then 0 else current_state ! a ! (s - 1))"
  proof (intro allI impI)
    fix a s assume a: "a < A" and s: "s < S"
    from assms(2) a have "length (current_state ! a) = S" by (rule is_shape_nth)
    with s have "conv_row ?w ?w 0 (current_state ! a) ! s =
      ?w * current_state ! a ! s + ?w * (if s = 0 then 0 else current_state ! a ! (s - 1))"
      by (simp add: conv_row_nth)
    with a lenA show "?smoothed ! a ! s =
      ?w * current_state ! a ! s + ?w * (if s = 0 then 0 else current_state ! a ! (s - 1))"
      by (simp add: convolve2d_same_nth)
  qed
  have shift: "\<forall>a<A. ?shifted ! ((a + 1) mod A) = ?smoothed ! a"
  proof (intro allI impI)
    fix a assume "a < A"
    with len_sm have "a < length ?smoothed" by simp
    from np_roll_nth [OF this] len_sm show "?shifted ! ((a + 1) mod A) = ?smoothed ! a"
      by simp
  qed
  have ns_shape: "is_shape A S next_state"
    using assms(2,1) by (rule update_shape)
  have ns0: "next_state ! 0 = row" using ns A len_sh by simp
  have rest: "\<forall>a s. Suc a < A \<longrightarrow> s < S \<longrightarrow>
              next_state ! Suc a ! s =
                ?w * current_state ! a ! s +
                ?w * (if s = 0 then 0 else current_state ! a ! (s - 1))"
  proof (intro allI impI)
    fix a s assume a: "Suc a < A" and s: "s < S"
    from a len_sm have "Suc a < length ?smoothed" by simp
    then have "?shifted ! Suc a = ?smoothed ! a" by (rule np_roll_Suc_nth)
    moreover from a have "a < A" by simp
    ultimately show "next_state ! Suc a ! s =
                ?w * current_state ! a ! s +
                ?w * (if s = 0 then 0 else current_state ! a ! (s - 1))"
      using ns smooth s by simp
  qed
  have d': "d' = d\<lparr>initial_annulus_generator := Some (g\<lparr>consumed := consumed g + 1\<rparr>)\<rparr>"
    using adv g by (simp add: advance_def)
  show ?thesis
    by (intro exI [of _ g] exI [of _ v] exI [of _ row] exI [of _ ?smoothed]
        exI [of _ ?shifted] conjI g v bc' row_v A refl sm smooth sh shift ns ns_shape ns0
        rest d')
qed

theorem update_step_function_witness:
  "\<not> isl (update (example_disk (1 / 2)) [[1, 2, 3], [4, 5, 6], [7, 8, 9]]) \<and>
   is_shape 3 3 [[1, 2, 3], [4, 5, 6], [7, 8, 9]] \<and>
   fst (projr (update (example_disk (1 / 2)) [[1, 2, 3], [4, 5, 6], [7, 8, 9]])) =
     [[1, 1, 1], [1 / 4, 3 / 4, 5 / 4], [1, 9 / 4, 11 / 4]] \<and>
   is_shape 3 3 (fst (projr (update (example_disk (1 / 2)) [[1, 2, 3], [4, 5, 6], [7, 8, 9]]))) \<and>
   heap (snd (projr (update (example_disk (1 / 2)) [[1, 2, 3], [4, 5, 6], [7, 8, 9]]))) =
     heap (example_disk (1 / 2)) \<and>
   map_option consumed (initial_annulus_generator
     (snd (projr (update (example_disk (1 / 2)) [[1, 2, 3], [4, 5, 6], [7, 8, 9]])))) = Some 1"
proof -
  let ?d = "example_disk (1 / 2)"
  let ?u = "update ?d [[1, 2, 3], [4, 5, 6], [7, 8, 9]]"
  have r: "\<not> isl ?u" by code_simp
  have sh: "is_shape 3 3 [[1, 2, 3], [4, 5, 6], [7, 8, 9]]" by (simp add: is_shape_def)
  have val: "fst (projr ?u) = [[1, 1, 1], [1 / 4, 3 / 4, 5 / 4], [1, 9 / 4, 11 / 4]]"
    by code_simp
  from evaluated [OF r] have u: "?u = Inr (fst (projr ?u), snd (projr ?u))" by simp
  have gen: "initial_annulus_generator ?d = Some (constant_source [1, 1, 1])"
    by (simp add: example_disk_def)
  from update_step_function [OF u sh] obtain g where
    g: "initial_annulus_generator ?d = Some g" and
    ns: "is_shape 3 3 (fst (projr ?u))" and
    d': "snd (projr ?u) = ?d\<lparr>initial_annulus_generator := Some (g\<lparr>consumed := consumed g + 1\<rparr>)\<rparr>"
    by (elim exE conjE)
  from g gen have "g = constant_source [1, 1, 1]" by simp
  with d' have h: "heap (snd (projr ?u)) = heap ?d"
    and c: "map_option consumed (initial_annulus_generator (snd (projr ?u))) = Some 1"
    by (simp_all add: constant_source_def)
  show ?thesis by (intro conjI r sh val ns h c)
qed

subsection \<open>The scenario with rate 0\<close>

text \<open>
  C2, amended: with \<open>total_convolve_rate = 0\<close> both entries of the kernel are 0, so the
  smoothing stage maps every snapshot to zeros of the same shape. In the scenario
  (\<open>r_in = 1\<close>, \<open>r_out = 3\<close>, a Boundary Source that yields \<open>[1, 1, 1]\<close> on every pull, no
  prior \<open>initialize\<close>) the seed snapshot is \<open>[1, 1, 1]\<close> in every annulus, and after
  \<open>run_simulation(1)\<close> the snapshot \<open>history[1]\<close> has annulus 0 equal to \<open>[1, 1, 1]\<close> from
  the fresh pull and every other annulus equal to \<open>[0, 0, 0]\<close>.
\<close>

theorem rate_zero_scenario:
  "num_anulus (example_disk 0) = 3 \<and> num_segments (example_disk 0) = 3 \<and>
   convolve2d_same x
     (1 * total_convolve_rate (example_disk 0) / 2, 1 * total_convolve_rate (example_disk 0) / 2) =
     map (\<lambda>row. replicate (length row) 0) x \<and>
   \<not> isl (run_simulation (example_disk 0) 1 1) \<and>
   the_history (projr (run_simulation (example_disk 0) 1 1)) =
     Some [[[1, 1, 1], [1, 1, 1], [1, 1, 1]],
           [[1, 1, 1], [0, 0, 0], [0, 0, 0]]]"
proof -
  have z: "conv_row 0 0 p row = replicate (length row) 0" for p row
    by (induction row arbitrary: p) simp_all
  have dims: "num_anulus (example_disk 0) = 3" "num_segments (example_disk 0) = 3"
    and rate: "total_convolve_rate (example_disk 0) = 0"
    by (simp_all add: example_disk_def DiskPropagation_def)
  have conv: "convolve2d_same x
     (1 * total_convolve_rate (example_disk 0) / 2, 1 * total_convolve_rate (example_disk 0) / 2) =
     map (\<lambda>row. replicate (length row) 0) x"
    unfolding rate by (simp add: convolve2d_same_def z)
  have r: "\<not> isl (run_simulation (example_disk 0) 1 1)" by code_simp
  have h: "the_history (projr (run_simulation (example_disk 0) 1 1)) =
     Some [[[1, 1, 1], [1, 1, 1], [1, 1, 1]],
           [[1, 1, 1], [0, 0, 0], [0, 0, 0]]]"
    by code_simp
  show ?thesis by (intro conjI dims conv r h)
qed

text \<open>
  In the scenario the smoothing stage changes the seed snapshot, and annulus 1 of
  \<open>history[1]\<close> is \<open>[0, 0, 0]\<close>, not the seed's annulus 0.
\<close>

theorem rate_zero_scenario_counterexample:
  "\<not> isl (run_simulation (example_disk 0) 1 1) \<and>
   the (the_history (projr (run_simulation (example_disk 0) 1 1))) ! 0 ! 0 = [1, 1, 1] \<and>
   the (the_history (projr (run_simulation (example_disk 0) 1 1))) ! 1 ! 1 = [0, 0, 0] \<and>
   the (the_history (projr (run_simulation (example_disk 0) 1 1))) ! 1 ! 1 \<noteq>
     the (the_history (projr (run_simulation (example_disk 0) 1 1))) ! 0 ! 0 \<and>
   convolve2d_same [[1, 1, 1], [1, 1, 1], [1, 1, 1]]
     (1 * total_convolve_rate (example_disk 0) / 2, 1 * total_convolve_rate (example_disk 0) / 2) \<noteq>
     [[1, 1, 1], [1, 1, 1], [1, 1, 1]]"
  by code_simp

subsection \<open>The initial state\<close>

lemma run_simulation_initial_state:
  assumes run: "run_simulation d n fv = Inr d'" and ok: "initial_state_ok d"
  shows "initial_state_ok d' \<and> the_initial_state d' = the_initial_state d \<and>
         (\<exists>H. the_history d' = Some H \<and> the_initial_state d = Some (H ! 0))"
proof -
  let ?A = "nat (num_anulus d)" and ?S = "nat (num_segments d)"
  from ok obtain q t where
    vw: "initial_state d = Some (q, t)" and q: "q < length (heap d)" and
    t: "t < length (heap d ! q)" and sh: "is_shape ?A ?S (heap d ! q ! t)"
    by (auto simp: initial_state_ok_def split: option.splits)
  from run obtain H where
    d': "d' = (advance (seed_pulls d + nat n * Suc (nat (fv - 1))) d)
                 \<lparr>time := time d + nat n, state := Some (length (heap d)),
                  state_observed := Some (np_multiply H (np_triu_ones ?A ?S)),
                  heap := heap d @ [H]\<rparr>" and
    h: "the_history d' = Some H" and
    view: "\<forall>q t. initial_state d = Some (q, t) \<longrightarrow> q < length (heap d) \<longrightarrow>
          broadcast_to ?A ?S (Array2 (heap d ! q ! t)) = Inr (H ! 0)"
    by (rule run_simulation_cases)
  have vw': "initial_state d' = Some (q, t)"
    and dims: "num_anulus d' = num_anulus d" "num_segments d' = num_segments d"
    and hp: "heap d' = heap d @ [H]"
    by (simp_all add: d' advance_fields vw)
  from q have same: "heap d' ! q = heap d ! q" by (simp add: hp nth_append)
  from view vw q have "broadcast_to ?A ?S (Array2 (heap d ! q ! t)) = Inr (H ! 0)" by blast
  with broadcast_to_same [OF sh] have H0: "H ! 0 = heap d ! q ! t" by simp
  have c1: "initial_state_ok d'"
    using q t sh by (simp add: initial_state_ok_def vw' dims hp nth_append)
  have c2: "the_initial_state d' = the_initial_state d"
    by (simp add: the_initial_state_def vw vw' same)
  have c3: "the_initial_state d = Some (H ! 0)"
    by (simp add: the_initial_state_def vw H0)
  show ?thesis by (intro conjI exI [of _ H] c1 c2 h c3)
qed

lemma reset_initial_state:
  "initial_state_ok d \<Longrightarrow>
   initial_state_ok (reset d) \<and> the_initial_state (reset d) = the_initial_state d"
  by (auto simp: initial_state_ok_def the_initial_state_def reset_def split: option.splits)

lemma perform_initial_state:
  "perform cs d = Inr d' \<Longrightarrow> initial_state_ok d \<Longrightarrow>
   initial_state_ok d' \<and> the_initial_state d' = the_initial_state d"
proof (induction cs d rule: perform.induct)
  case (1 d)
  then show ?case by simp
next
  case (2 num_steps flow_velocity cs d)
  from "2.prems"(1) obtain d1 where
    run: "run_simulation d num_steps flow_velocity = Inr d1" and
    rest: "perform cs d1 = Inr d'"
    by (auto split: sum.splits)
  from run_simulation_initial_state [OF run "2.prems"(2)]
  have ok1: "initial_state_ok d1" and same1: "the_initial_state d1 = the_initial_state d"
    by simp_all
  from "2.IH" [OF run rest ok1] same1 show ?case by simp
next
  case (3 cs d)
  from "3.prems"(1) have rest: "perform cs (reset d) = Inr d'" by simp
  from reset_initial_state [OF "3.prems"(2)]
  have ok1: "initial_state_ok (reset d)"
    and same1: "the_initial_state (reset d) = the_initial_state d"
    by simp_all
  from "3.IH" [OF rest ok1] same1 show ?case by simp
qed

lemma initialize_Inr:
  assumes "initialize d f = Inr d1"
  shows "\<exists>d2 H. run_simulation (d\<lparr>initial_annulus_generator := Some (f (num_segments d))\<rparr>)
                   (num_anulus d) 1 = Inr d2 \<and>
                the_history d2 = Some H \<and> H \<noteq> [] \<and>
                the_initial_state d1 = Some (last H) \<and> time d1 = 0 \<and> initial_state_ok d1"
proof -
  let ?d0 = "d\<lparr>initial_annulus_generator := Some (f (num_segments d))\<rparr>"
  let ?A = "nat (num_anulus d)" and ?S = "nat (num_segments d)"
  from assms obtain d2 where run: "run_simulation ?d0 (num_anulus d) 1 = Inr d2"
    by (cases "run_simulation ?d0 (num_anulus d) 1") (simp_all add: initialize_def Let_def)
  from run obtain H where
    d2: "d2 = (advance (seed_pulls ?d0 + nat (num_anulus d) * Suc (nat (1 - 1))) ?d0)
                 \<lparr>time := time ?d0 + nat (num_anulus d), state := Some (length (heap ?d0)),
                  state_observed := Some (np_multiply H
                    (np_triu_ones (nat (num_anulus ?d0)) (nat (num_segments ?d0)))),
                  heap := heap ?d0 @ [H]\<rparr>" and
    h: "the_history d2 = Some H" and
    len: "length H = Suc (nat (num_anulus d))" and
    shapes: "\<forall>s\<in>set H. is_shape (nat (num_anulus ?d0)) (nat (num_segments ?d0)) s"
    by (rule run_simulation_cases)
  have st2: "state d2 = Some (length (heap d))" and hp2: "heap d2 = heap d @ [H]"
    and dims2: "num_anulus d2 = num_anulus d" "num_segments d2 = num_segments d"
    by (simp_all add: d2 advance_fields)
  from len have ne: "H \<noteq> []" by auto
  from assms run st2 hp2 ne have
    d1: "d1 = d2\<lparr>initial_state := Some (length (heap d), length H - 1), time := 0\<rparr>"
    by (simp add: initialize_def Let_def)
  have vw: "initial_state d1 = Some (length (heap d), length H - 1)"
    and hp1: "heap d1 = heap d @ [H]"
    and dims1: "num_anulus d1 = num_anulus d" "num_segments d1 = num_segments d"
    and t1: "time d1 = 0"
    by (simp_all add: d1 hp2 dims2)
  have lt: "length H - 1 < length H" using ne by (cases H) simp_all
  have lastH: "H ! (length H - Suc 0) = last H" using last_conv_nth [OF ne] by simp
  have init: "the_initial_state d1 = Some (last H)"
    by (simp add: the_initial_state_def vw hp1 lastH)
  have "is_shape ?A ?S (H ! (length H - 1))" using shapes lt by simp
  then have ok: "initial_state_ok d1"
    using lt by (simp add: initial_state_ok_def vw hp1 dims1)
  show ?thesis by (intro exI [of _ d2] exI [of _ H] conjI run h ne init t1 ok)
qed

text \<open>
  C7: when \<open>initialize(factory)\<close> returns, \<open>initial_state\<close> shows the last snapshot of the
  warm-up run \<open>run_simulation(num_anulus)\<close> and \<open>time\<close> is 0. After any later
  \<open>run_simulation\<close> and \<open>reset\<close> calls, a \<open>run_simulation\<close> call that returns has
  \<open>history[0]\<close> equal to that initial state in every entry, and the initial state is the
  one stored by \<open>initialize\<close>: the steps of the call change neither.
\<close>

theorem initialize_seed:
  assumes "initialize d initial_annulus_generator_func = Inr d1"
  shows "time d1 = 0 \<and>
    (\<exists>d2 H. run_simulation
               (d\<lparr>initial_annulus_generator :=
                    Some (initial_annulus_generator_func (num_segments d))\<rparr>)
               (num_anulus d) 1 = Inr d2 \<and>
            the_history d2 = Some H \<and> H \<noteq> [] \<and> the_initial_state d1 = Some (last H)) \<and>
    (\<forall>cs d3 num_steps flow_velocity d4.
       perform cs d1 = Inr d3 \<longrightarrow> run_simulation d3 num_steps flow_velocity = Inr d4 \<longrightarrow>
       the_initial_state d4 = the_initial_state d1 \<and>
       (\<exists>H'. the_history d4 = Some H' \<and> the_initial_state d1 = Some (H' ! 0)))"
proof -
  from initialize_Inr [OF assms] obtain d2 H where
    run: "run_simulation
               (d\<lparr>initial_annulus_generator :=
                    Some (initial_annulus_generator_func (num_segments d))\<rparr>)
               (num_anulus d) 1 = Inr d2" and
    h: "the_history d2 = Some H" and ne: "H \<noteq> []" and
    init: "the_initial_state d1 = Some (last H)" and t: "time d1 = 0" and
    ok: "initial_state_ok d1"
    by (elim exE conjE)
  have later: "\<forall>cs d3 num_steps flow_velocity d4.
       perform cs d1 = Inr d3 \<longrightarrow> run_simulation d3 num_steps flow_velocity = Inr d4 \<longrightarrow>
       the_initial_state d4 = the_initial_state d1 \<and>
       (\<exists>H'. the_history d4 = Some H' \<and> the_initial_state d1 = Some (H' ! 0))"
  proof (intro allI impI)
    fix cs d3 num_steps flow_velocity d4
    assume p: "perform cs d1 = Inr d3"
      and r: "run_simulation d3 num_steps flow_velocity = Inr d4"
    from perform_initial_state [OF p ok]
    have ok3: "initial_state_ok d3" and same3: "the_initial_state d3 = the_initial_state d1"
      by simp_all
    from run_simulation_initial_state [OF r ok3] same3
    show "the_initial_state d4 = the_initial_state d1 \<and>
       (\<exists>H'. the_history d4 = Some H' \<and> the_initial_state d1 = Some (H' ! 0))"
      by simp
  qed
  have warm: "\<exists>d2 H. run_simulation
               (d\<lparr>initial_annulus_generator :=
                    Some (initial_annulus_generator_func (num_segments d))\<rparr>)
               (num_anulus d) 1 = Inr d2 \<and>
            the_history d2 = Some H \<and> H \<noteq> [] \<and> the_initial_state d1 = Some (last H)"
    by (intro exI [of _ d2] exI [of _ H] conjI run h ne init)
  show ?thesis by (intro conjI t warm later)
qed

theorem initialize_seed_witness:
  "\<not> isl (initialize (DiskPropagation 1 3 (1 / 2)) ones_factory) \<and>
   time (projr (initialize (DiskPropagation 1 3 (1 / 2)) ones_factory)) = 0 \<and>
   the_initial_state (projr (initialize (DiskPropagation 1 3 (1 / 2)) ones_factory)) =
     Some [[1, 1, 1], [1 / 4, 1 / 2, 1 / 2], [1 / 16, 3 / 16, 1 / 4]] \<and>
   \<not> isl (perform [Run 2 1, Reset]
            (projr (initialize (DiskPropagation 1 3 (1 / 2)) ones_factory))) \<and>
   \<not> isl (run_simulation
            (projr (perform [Run 2 1, Reset]
               (projr (initialize (DiskPropagation 1 3 (1 / 2)) ones_factory)))) 2 1) \<and>
   the_initial_state (projr (run_simulation
            (projr (perform [Run 2 1, Reset]
               (projr (initialize (DiskPropagation 1 3 (1 / 2)) ones_factory)))) 2 1)) =
     the_initial_state (projr (initialize (DiskPropagation 1 3 (1 / 2)) ones_factory)) \<and>
   (\<exists>H'. the_history (projr (run_simulation
            (projr (perform [Run 2 1, Reset]
               (projr (initialize (DiskPropagation 1 3 (1 / 2)) ones_factory)))) 2 1)) =
            Some H' \<and>
      the_initial_state (projr (initialize (DiskPropagation 1 3 (1 / 2)) ones_factory)) =
        Some (H' ! 0))"
proof -
  let ?i = "initialize (DiskPropagation 1 3 (1 / 2)) ones_factory"
  let ?p = "perform [Run 2 1, Reset] (projr ?i)"
  let ?r = "run_simulation (projr ?p) 2 1"
  have i: "\<not> isl ?i" by code_simp
  have p: "\<not> isl ?p" by code_simp
  have r: "\<not> isl ?r" by code_simp
  have v: "the_initial_state (projr ?i) =
     Some [[1, 1, 1], [1 / 4, 1 / 2, 1 / 2], [1 / 16, 3 / 16, 1 / 4]]"
    by code_simp
  note init = initialize_seed [OF evaluated [OF i]]
  from init have t: "time (projr ?i) = 0" by (rule conjunct1)
  from init have
    later: "\<forall>cs d3 num_steps flow_velocity d4.
       perform cs (projr ?i) = Inr d3 \<longrightarrow>
       run_simulation d3 num_steps flow_velocity = Inr d4 \<longrightarrow>
       the_initial_state d4 = the_initial_state (projr ?i) \<and>
       (\<exists>H'. the_history d4 = Some H' \<and> the_initial_state (projr ?i) = Some (H' ! 0))"
    by (elim conjE)
  note now = later [rule_format, OF evaluated [OF p] evaluated [OF r]]
  from now have c1: "the_initial_state (projr ?r) = the_initial_state (projr ?i)"
    by (rule conjunct1)
  from now have c2: "\<exists>H'. the_history (projr ?r) = Some H' \<and>
                the_initial_state (projr ?i) = Some (H' ! 0)"
    by (rule conjunct2)
  show ?thesis by (intro conjI i t v p r c1 c2)
qed

subsection \<open>Reset\<close>

text \<open>
  C9: \<open>reset()\<close> sets \<open>time\<close> to 0 and clears the history array and the observed-state
  array; every other attribute is as before the call: the initial state (the view and the
  snapshot it shows), the Boundary Source with its position, \<open>r_in\<close>, \<open>r_out\<close>,
  \<open>num_anulus\<close>, \<open>num_segments\<close> and \<open>total_convolve_rate\<close>. The arrays already
  allocated are not touched.
\<close>

theorem reset_frame:
  "time (reset d) = 0 \<and> state (reset d) = None \<and> the_history (reset d) = None \<and>
   state_observed (reset d) = None \<and>
   initial_state (reset d) = initial_state d \<and>
   the_initial_state (reset d) = the_initial_state d \<and>
   initial_annulus_generator (reset d) = initial_annulus_generator d \<and>
   r_in (reset d) = r_in d \<and> r_out (reset d) = r_out d \<and>
   num_anulus (reset d) = num_anulus d \<and> num_segments (reset d) = num_segments d \<and>
   total_convolve_rate (reset d) = total_convolve_rate d \<and>
   heap (reset d) = heap d"
  by (simp add: reset_def the_history_def the_initial_state_def)

end
